theory Spec2Isabelle
  imports Main "HOL-Library.Word"
begin

unbundle bit_operations_syntax

section \<open>Machine types and constants\<close>

text \<open>
  The Merkle tree code of \<^verbatim>\<open>ulib/merkle/tree.cpp\<close> computes with \<^verbatim>\<open>size_t\<close> and
  \<^verbatim>\<open>uint64_t\<close>, both 64-bit unsigned integers whose arithmetic wraps around, and hashes
  bytes.
\<close>

type_synonym byte = "8 word"
type_synonym size_t = "64 word"
type_synonym uint64_t = "64 word"
type_synonym uint32_t = "32 word"

text \<open>
  Modelled from the spec: \<^verbatim>\<open>Tree::kNodeSize\<close> and \<^verbatim>\<open>Digest::kLength\<close> are declared in
  \<^verbatim>\<open>merkle/tree.h\<close> and \<^verbatim>\<open>merkle/digest.h\<close>, which are not among the sources; the
  specification fixes \<^verbatim>\<open>NODE_SIZE = 8192\<close> and \<^verbatim>\<open>DIGEST_LEN = 32\<close>.
\<close>

definition kNodeSize :: size_t where
  "kNodeSize = 8192"

definition kLength :: size_t where
  "kLength = 32"

text \<open>\<^verbatim>\<open>const size_t kDigestsPerNode = Tree::kNodeSize / Digest::kLength;\<close>\<close>

definition kDigestsPerNode :: size_t where
  "kDigestsPerNode = kNodeSize div kLength"

definition UINT32_MAX :: size_t where
  "UINT32_MAX = 4294967295"

text \<open>
  Modelled from the spec: \<^verbatim>\<open>mxtl::roundup\<close> (\<^verbatim>\<open>mxtl/algorithm.h\<close> is not among the
  sources) is ceiling-to-multiple, computed on 64-bit unsigned integers.
\<close>

definition roundup :: "size_t \<Rightarrow> size_t \<Rightarrow> size_t" where
  "roundup val multiple =
     (if val = 0 then 0 else ((val + (multiple - 1)) div multiple) * multiple)"

section \<open>Level geometry\<close>

text \<open>
  \<^verbatim>\<open>NextLength\<close> turns a length in one level into the length of the next level up;
  \<^verbatim>\<open>NextAligned\<close> rounds that up to a node boundary.
\<close>

definition NextLength :: "size_t \<Rightarrow> size_t" where
  "NextLength len =
     (if len > kNodeSize then roundup len kNodeSize div kDigestsPerNode else 0)"

definition NextAligned :: "size_t \<Rightarrow> size_t" where
  "NextAligned len = roundup (NextLength len) kNodeSize"

lemma kDigestsPerNode_eq: "kDigestsPerNode = 256"
  by (simp add: kDigestsPerNode_def kNodeSize_def kLength_def)

lemma unat_roundup:
  "unat (roundup x kNodeSize) = ((unat x + 8191) mod 2 ^ 64) div 8192 * 8192"
proof -
  have a: "unat (x + 8191) = (unat x + 8191) mod 2 ^ 64"
    by (simp add: unat_word_ariths)
  have b: "unat ((x + 8191) div 8192) = unat (x + 8191) div 8192"
    by (simp add: unat_div)
  have c: "unat (x + 8191) div 8192 * 8192 < 2 ^ 64"
    using unsigned_less [of "x + 8191", where 'a = nat] by simp
  have d: "unat (((x + 8191) div 8192) * 8192) = unat (x + 8191) div 8192 * 8192"
    using c b by (simp add: unat_word_ariths)
  show ?thesis
    using a d by (auto simp: roundup_def kNodeSize_def)
qed

lemma NextAligned_nat_less:
  fixes x :: nat
  assumes "8192 < x" "x < 2 ^ 64"
  shows "((((x + 8191) mod 2 ^ 64) div 8192 * 8192) div 256 + 8191) mod 2 ^ 64
           div 8192 * 8192 < x"
proof (cases "x + 8191 < 2 ^ 64")
  case True
  define n where "n = (x + 8191) div 8192"
  have n2: "2 \<le> n"
    using assms unfolding n_def by simp
  have xn: "(n - 1) * 8192 < x"
    unfolding n_def using assms by (simp; arith)
  have r1: "((x + 8191) mod 2 ^ 64) div 8192 * 8192 = n * 8192"
    using True by (simp add: n_def)
  have "n * 8192 div 256 = n * 32"
    by simp
  moreover have "n * 32 + 8191 < 2 ^ 64"
    using True unfolding n_def by simp
  moreover have "(n * 32 + 8191) div 8192 \<le> n - 1"
    using n2 by simp
  ultimately have "((n * 8192) div 256 + 8191) mod 2 ^ 64 div 8192 * 8192 \<le> (n - 1) * 8192"
    by simp
  then show ?thesis
    using xn r1 by simp
next
  case False
  then have "(x + 8191) mod 2 ^ 64 = x + 8191 - 2 ^ 64"
    using assms by (simp add: mod_if)
  then have "(x + 8191) mod 2 ^ 64 < 8192"
    using assms by simp
  then have "((x + 8191) mod 2 ^ 64) div 8192 = 0"
    by simp
  then show ?thesis
    using assms by simp
qed

lemma unat_NextLength:
  "kNodeSize < L \<Longrightarrow>
   unat (NextLength L) = ((unat L + 8191) mod 2 ^ 64) div 8192 * 8192 div 256"
  by (simp add: NextLength_def kDigestsPerNode_eq unat_div unat_roundup)

lemma NextAligned_less: "kNodeSize < L \<Longrightarrow> NextAligned L < L"
proof -
  assume h: "kNodeSize < L"
  have x: "8192 < unat L"
    using h by (simp add: kNodeSize_def word_less_nat_alt)
  have y: "unat L < 2 ^ 64"
    using unsigned_less [of L, where 'a = nat] by simp
  have "unat (NextAligned L) < unat L"
    unfolding NextAligned_def unat_roundup unat_NextLength [OF h]
    using NextAligned_nat_less [OF x y] .
  then show ?thesis
    by (simp add: word_less_nat_alt)
qed

lemma NextAligned_small: "L \<le> kNodeSize \<Longrightarrow> NextAligned L = 0"
  by (simp add: NextAligned_def NextLength_def roundup_def leD)

lemma NextAligned_nonzero: "NextAligned L \<noteq> 0 \<Longrightarrow> kNodeSize < L"
  using NextAligned_small [of L] by (cases "L \<le> kNodeSize") auto

text \<open>
  \<^verbatim>\<open>Tree::GetTreeLength\<close>: the recursion ascends one level per call and stops at the
  first level that fits in one node.
\<close>

function GetTreeLength :: "size_t \<Rightarrow> size_t" where
  "GetTreeLength data_len =
     (let next_len = NextAligned data_len
      in (if next_len = 0 then 0 else next_len + GetTreeLength next_len))"
  by pat_completeness auto
termination
proof (relation "measure unat")
  show "wf (measure unat)"
    by simp
next
  fix data_len x :: size_t
  assume "x = NextAligned data_len" "x \<noteq> 0"
  then have "x < data_len"
    using NextAligned_less [OF NextAligned_nonzero] by simp
  then show "(x, data_len) \<in> measure unat"
    by (simp add: word_less_nat_alt)
qed

declare GetTreeLength.simps [simp del]

text \<open>
  The specification's wording of the tree length: \<open>A_spec k L\<close> is the node-aligned size
  of level \<open>k\<close> above a blob of \<open>L\<close> bytes, \<open>A(L\<^sub>k) = roundup(next_len(L\<^sub>k\<^sub>-\<^sub>1), NODE_SIZE)\<close> with
  \<open>next_len(x) = roundup(x, NODE_SIZE) / DIGESTS_PER_NODE\<close> for \<open>x > NODE_SIZE\<close> and \<open>0\<close>
  otherwise.
\<close>

definition next_len_spec :: "size_t \<Rightarrow> size_t" where
  "next_len_spec x = (if x > 8192 then roundup x 8192 div 256 else 0)"

fun A_spec :: "nat \<Rightarrow> size_t \<Rightarrow> size_t" where
  "A_spec 0 L = L"
| "A_spec (Suc k) L = roundup (next_len_spec (A_spec k L)) 8192"


declare A_spec.simps(2) [simp del]

lemma next_len_spec_eq: "next_len_spec = NextLength"
  by (auto simp: next_len_spec_def NextLength_def kNodeSize_def kDigestsPerNode_eq fun_eq_iff)

lemma A_spec_Suc: "A_spec (Suc k) L = NextAligned (A_spec k L)"
  by (simp add: A_spec.simps(2) next_len_spec_eq NextAligned_def kNodeSize_def)

lemma A_spec_shift: "A_spec (Suc k) L = A_spec k (NextAligned L)"
  by (induction k) (simp_all add: A_spec_Suc)

lemma NextAligned_0: "NextAligned 0 = 0"
  by (simp add: NextAligned_small)

lemma A_spec_zero: "A_spec k 0 = 0"
  by (induction k) (simp_all add: A_spec_Suc NextAligned_small)

lemma GetTreeLength_sum:
  "A_spec (Suc n) L = 0 \<Longrightarrow> GetTreeLength L = (\<Sum>k = 1..n. A_spec k L)"
proof (induction n arbitrary: L)
  case 0
  then have "NextAligned L = 0" by (simp add: A_spec_Suc)
  then show ?case by (simp add: GetTreeLength.simps)
next
  case (Suc n)
  show ?case
  proof (cases "NextAligned L = 0")
    case True
    then have "\<And>k. A_spec (Suc k) L = 0" by (simp add: A_spec_shift A_spec_zero)
    then have "\<And>k. 1 \<le> k \<Longrightarrow> A_spec k L = 0" by (metis Suc_le_D One_nat_def)
    then have "(\<Sum>k = 1..Suc n. A_spec k L) = (\<Sum>k = 1..Suc n. 0)"
      by (intro sum.cong) auto
    then show ?thesis using True by (simp add: GetTreeLength.simps)
  next
    case False
    have z: "A_spec (Suc n) (NextAligned L) = 0"
      using Suc.prems by (simp only: A_spec_shift[symmetric])
    have "(\<Sum>k = Suc 0..Suc n. A_spec k L) = A_spec (Suc 0) L + (\<Sum>k = Suc (Suc 0)..Suc n. A_spec k L)"
      by (rule sum.atLeast_Suc_atMost) simp
    also have "(\<Sum>k = Suc (Suc 0)..Suc n. A_spec k L) = (\<Sum>k = Suc 0..n. A_spec (Suc k) L)"
      by (simp only: sum.atLeast_Suc_atMost_Suc_shift comp_def)
    also have "\<dots> = (\<Sum>k = Suc 0..n. A_spec k (NextAligned L))"
      by (simp only: A_spec_shift)
    finally have s: "(\<Sum>k = Suc 0..Suc n. A_spec k L) =
        A_spec (Suc 0) L + (\<Sum>k = Suc 0..n. A_spec k (NextAligned L))" .
    have a1: "A_spec (Suc 0) L = NextAligned L"
      by (simp add: A_spec_Suc)
    have g: "GetTreeLength L = NextAligned L + GetTreeLength (NextAligned L)"
      using False by (simp add: GetTreeLength.simps [of L] Let_def)
    show ?thesis
      by (simp only: g Suc.IH [OF z] One_nat_def s a1)
  qed
qed

lemma levels_finite: "\<exists>n. (NextAligned ^^ n) L \<le> kNodeSize"
proof (induction L rule: measure_induct_rule[where f = unat])
  case (less L)
  show ?case
  proof (cases "L \<le> kNodeSize")
    case True
    then have "(NextAligned ^^ 0) L \<le> kNodeSize" by simp
    then show ?thesis by blast
  next
    case False
    then have "NextAligned L < L" by (simp add: NextAligned_less)
    then have "unat (NextAligned L) < unat L" by (simp add: word_less_nat_alt)
    from less[OF this] obtain n where "(NextAligned ^^ n) (NextAligned L) \<le> kNodeSize" by blast
    then have "(NextAligned ^^ Suc n) L \<le> kNodeSize" by (simp add: funpow_swap1)
    then show ?thesis by blast
  qed
qed

lemma NextAligned_nat_bounds:
  fixes x :: nat
  assumes "8192 < x" "x + 8191 < 2 ^ 64"
  defines "a \<equiv> ((((x + 8191) mod 2 ^ 64) div 8192 * 8192) div 256 + 8191) mod 2 ^ 64 div 8192 * 8192"
  shows "8192 \<le> a" "a + 8191 < 2 ^ 64" "8192 < a \<Longrightarrow> 2 * a \<le> x"
proof -
  define n where "n = (x + 8191) div 8192"
  have n2: "2 \<le> n" using assms unfolding n_def by simp
  have xn: "(n - 1) * 8192 < x" unfolding n_def using assms by (simp; arith)
  have nb: "n * 32 + 8191 < 2 ^ 64" using assms unfolding n_def by simp
  have a_eq: "a = (n * 32 + 8191) div 8192 * 8192"
    using assms(2) nb unfolding a_def n_def by simp
  show "8192 \<le> a" unfolding a_eq using n2 by simp
  show "a + 8191 < 2 ^ 64" unfolding a_eq using assms(2) unfolding n_def by simp
  show "2 * a \<le> x" if "8192 < a"
  proof -
    have "2 \<le> (n * 32 + 8191) div 8192" using that unfolding a_eq by simp
    then have "4 \<le> n" by simp
    then have "2 * ((n * 32 + 8191) div 8192) \<le> n - 1" by simp
    then have "2 * a \<le> (n - 1) * 8192" unfolding a_eq by simp
    then show ?thesis using xn by simp
  qed
qed

lemma GetTreeLength_bounds:
  "kNodeSize < L \<Longrightarrow> unat L + 8191 < 2 ^ 64 \<Longrightarrow>
   0 < unat (GetTreeLength L) \<and> unat (GetTreeLength L) < unat L"
proof (induction L rule: measure_induct_rule[where f = unat])
  case (less L)
  have x: "8192 < unat L" using less.prems by (simp add: kNodeSize_def word_less_nat_alt)
  have ua: "unat (NextAligned L) = ((((unat L + 8191) mod 2 ^ 64) div 8192 * 8192) div 256 + 8191) mod 2 ^ 64 div 8192 * 8192"
    unfolding NextAligned_def unat_roundup unat_NextLength[OF less.prems(1)] ..
  note b = NextAligned_nat_bounds[OF x less.prems(2), folded ua]
  have lt: "unat (NextAligned L) < unat L"
    using NextAligned_less[OF less.prems(1)] by (simp add: word_less_nat_alt)
  have nz: "NextAligned L \<noteq> 0" using b(1) by auto
  have eq: "GetTreeLength L = NextAligned L + GetTreeLength (NextAligned L)"
    using nz by (simp add: GetTreeLength.simps[of L] Let_def)
  show ?case
  proof (cases "kNodeSize < NextAligned L")
    case True
    from less.IH[OF lt True b(2)] have ih: "0 < unat (GetTreeLength (NextAligned L))"
      "unat (GetTreeLength (NextAligned L)) < unat (NextAligned L)" by auto
    have "8192 < unat (NextAligned L)" using True by (simp add: kNodeSize_def word_less_nat_alt)
    from b(3)[OF this] have "unat (NextAligned L) + unat (GetTreeLength (NextAligned L)) < unat L"
      using ih by simp
    moreover have "unat L < 2 ^ 64" using less.prems(2) by simp
    ultimately show ?thesis using b(1) unfolding eq by (simp add: unat_word_ariths)
  next
    case False
    then have "NextAligned (NextAligned L) = 0" by (simp add: NextAligned_small)
    then have "GetTreeLength (NextAligned L) = 0" by (simp add: GetTreeLength.simps[of "NextAligned L"])
    then show ?thesis using b(1) lt unfolding eq by simp
  qed
qed

lemma GetTreeLength_zero_iff: "L \<le> 2^64 - 8192 \<Longrightarrow> (GetTreeLength L = 0 \<longleftrightarrow> L \<le> kNodeSize)"
proof -
  assume h: "L \<le> 2^64 - 8192"
  then have u: "unat L + 8191 < 2 ^ 64" by (simp add: word_le_nat_alt)
  show ?thesis
  proof (cases "L \<le> kNodeSize")
    case True
    then show ?thesis by (simp add: GetTreeLength.simps[of L] NextAligned_small)
  next
    case False
    then have "kNodeSize < L" by simp
    from GetTreeLength_bounds[OF this u] have "GetTreeLength L \<noteq> 0" by auto
    then show ?thesis using False by simp
  qed
qed


lemma GetTreeLength_two_digest_nodes:
  "GetTreeLength (kNodeSize * kDigestsPerNode + 1) = 3 * kNodeSize"
  by (simp add: GetTreeLength.simps NextAligned_def NextLength_def roundup_def kNodeSize_def
      kDigestsPerNode_eq)

lemma A_spec_reaches_zero: "\<exists>n. A_spec (Suc n) L = 0"
proof -
  obtain n where n: "(NextAligned ^^ n) L \<le> kNodeSize"
    using levels_finite by blast
  have "A_spec k L = (NextAligned ^^ k) L" for k
    by (induction k) (simp_all add: A_spec_Suc)
  then have "A_spec (Suc n) L = 0"
    using n by (simp add: A_spec_Suc NextAligned_small)
  then show ?thesis
    by blast
qed

section \<open>Status codes, pointers and memory\<close>

text \<open>
  The status codes the Merkle tree code returns (\<^verbatim>\<open>magenta/errors.h\<close>), and two outcomes
  that are not status codes: \<open>ASSERT_FAILED\<close>, a failed \<^verbatim>\<open>MX_DEBUG_ASSERT\<close>, and \<open>MEM_FAULT\<close>,
  an access outside a buffer or through a null pointer.
\<close>

datatype mx_status =
    NO_ERROR
  | ERR_INVALID_ARGS
  | ERR_OUT_OF_RANGE
  | ERR_BUFFER_TOO_SMALL
  | ERR_BAD_STATE
  | ERR_NO_MEMORY
  | ERR_IO_DATA_INTEGRITY
  | ASSERT_FAILED
  | MEM_FAULT

text \<open>
  A pointer is null, or points at an offset into a read-only buffer of the caller (given
  by its contents), or at an offset into the caller's tree buffer, whose contents are the
  state \<open>mem\<close> that the builder mutates and the verifier reads. An offset added to the
  null pointer gives a pointer that is not null and that no access can use.
\<close>

datatype ptr = nullptr | Data "byte list" nat | TreeMem nat

definition ptr_add :: "ptr \<Rightarrow> size_t \<Rightarrow> ptr" where
  "ptr_add p n =
     (case p of
        nullptr \<Rightarrow> (if n = 0 then nullptr else Data [] (unat n))
      | Data bs off \<Rightarrow> Data bs (off + unat n)
      | TreeMem off \<Rightarrow> TreeMem (off + unat n))"

text \<open>
  Reading \<open>n\<close> bytes at a pointer and writing bytes at a pointer: \<open>None\<close> is an access
  outside the buffer. An access of no bytes touches nothing.
\<close>

definition load :: "byte list \<Rightarrow> ptr \<Rightarrow> nat \<Rightarrow> byte list option" where
  "load mem p n =
     (if n = 0 then Some []
      else case p of
        nullptr \<Rightarrow> None
      | Data bs off \<Rightarrow> (if off + n \<le> length bs then Some (take n (drop off bs)) else None)
      | TreeMem off \<Rightarrow> (if off + n \<le> length mem then Some (take n (drop off mem)) else None))"

definition store :: "byte list \<Rightarrow> ptr \<Rightarrow> byte list \<Rightarrow> byte list option" where
  "store mem p bs =
     (if bs = [] then Some mem
      else case p of
        TreeMem off \<Rightarrow>
          (if off + length bs \<le> length mem
           then Some (take off mem @ bs @ drop (off + length bs) mem) else None)
      | _ \<Rightarrow> None)"

section \<open>The digest primitive\<close>

text \<open>
  Modelled from the spec: the class \<^verbatim>\<open>merkle::Digest\<close> (\<^verbatim>\<open>merkle/digest.h\<close> is not among
  the sources) is a 32-byte cryptographic hash with incremental \<^verbatim>\<open>Init/Update/Final\<close>,
  equality on the 32 bytes and copy-out. The hash function itself is a parameter \<open>H\<close> of
  the model. A digest object holds the bytes absorbed since \<^verbatim>\<open>Init\<close> and the 32-byte
  value of the last \<^verbatim>\<open>Final\<close>.
\<close>

record Digest =
  ctx :: "byte list"
  bytes_m :: "256 word"

type_synonym hash = "byte list \<Rightarrow> 256 word"

definition Digest_new :: Digest where
  "Digest_new = \<lparr>ctx = [], bytes_m = 0\<rparr>"

definition Digest_Init :: "Digest \<Rightarrow> Digest" where
  "Digest_Init digest = digest\<lparr>ctx := []\<rparr>"

definition Digest_Update :: "Digest \<Rightarrow> byte list \<Rightarrow> Digest" where
  "Digest_Update digest bs = digest\<lparr>ctx := ctx digest @ bs\<rparr>"

definition Digest_Final :: "hash \<Rightarrow> Digest \<Rightarrow> Digest" where
  "Digest_Final H digest = digest\<lparr>bytes_m := H (ctx digest)\<rparr>"

definition le_bytes :: "nat \<Rightarrow> 'a::len word \<Rightarrow> byte list" where
  "le_bytes n w = map (\<lambda>i. ucast (drop_bit (8 * i) w)) [0..<n]"

definition Digest_CopyTo :: "Digest \<Rightarrow> byte list" where
  "Digest_CopyTo digest = le_bytes 32 (bytes_m digest)"

section \<open>Hashing one node\<close>

text \<open>
  The wrappers of \<^verbatim>\<open>tree.cpp\<close>. \<^verbatim>\<open>DigestInit\<close> absorbs the 8 bytes of the locality and the
  4 bytes of \<^verbatim>\<open>static_cast<uint32_t>(min(length, kNodeSize))\<close>, in the byte order of the
  machine (little-endian); \<^verbatim>\<open>DigestUpdate\<close> absorbs up to the next node boundary and returns
  the number of bytes absorbed; \<^verbatim>\<open>DigestFinal\<close> pads with zeros up to a node boundary
  when the offset is not on one.
\<close>

definition DigestInit :: "Digest \<Rightarrow> uint64_t \<Rightarrow> size_t \<Rightarrow> mx_status \<times> Digest" where
  "DigestInit digest locality len =
     (if \<not> len < UINT32_MAX then (ASSERT_FAILED, digest)
      else let d1 = Digest_Init digest;
               d2 = Digest_Update d1 (le_bytes 8 locality);
               len32 = (ucast (min len kNodeSize) :: uint32_t)
           in (NO_ERROR, Digest_Update d2 (le_bytes 4 len32)))"

definition DigestUpdate ::
  "Digest \<Rightarrow> byte list \<Rightarrow> ptr \<Rightarrow> size_t \<Rightarrow> size_t \<Rightarrow> mx_status \<times> Digest \<times> size_t" where
  "DigestUpdate digest mem inp offset len =
     (let len' = min len (kNodeSize - (offset mod kNodeSize))
      in case load mem inp (unat len') of
           None \<Rightarrow> (MEM_FAULT, digest, len')
         | Some bs \<Rightarrow> (NO_ERROR, Digest_Update digest bs, len'))"

definition DigestFinal :: "hash \<Rightarrow> Digest \<Rightarrow> size_t \<Rightarrow> Digest" where
  "DigestFinal H digest offset =
     (let offset' = offset mod kNodeSize;
          d1 = (if offset' \<noteq> 0
                then Digest_Update digest (replicate (unat (kNodeSize - offset')) 0)
                else digest)
      in Digest_Final H d1)"

section \<open>The builder\<close>

text \<open>
  The class \<^verbatim>\<open>Tree\<close>: one object per level, each owning the next level up. The members
  \<^verbatim>\<open>initialized_\<close>, \<^verbatim>\<open>next_\<close>, \<^verbatim>\<open>level_\<close>, \<^verbatim>\<open>offset_\<close>, \<^verbatim>\<open>length_\<close> and \<^verbatim>\<open>digest_\<close> are
  written with the suffix \<open>_m\<close>.
\<close>

datatype Tree =
  Tree (initialized_m: bool) (next_m: "Tree option") (level_m: uint64_t)
       (offset_m: size_t) (length_m: size_t) (digest_m: Digest)

definition Tree_new :: Tree where
  "Tree_new = Tree False None 0 0 0 Digest_new"

text \<open>Assignments to the members of one level.\<close>

definition advance :: "Tree \<Rightarrow> size_t \<Rightarrow> Digest \<Rightarrow> Tree" where
  "advance t off d = Tree (initialized_m t) (next_m t) (level_m t) off (length_m t) d"

definition set_next :: "Tree \<Rightarrow> Tree \<Rightarrow> Tree" where
  "set_next t n = Tree (initialized_m t) (Some n) (level_m t) (offset_m t) (length_m t) (digest_m t)"

text \<open>
  Two steps of the loop of \<^verbatim>\<open>CreateUpdate\<close>: \<open>begin_node\<close> is
  \<^verbatim>\<open>if (offset_ % kNodeSize == 0) DigestInit(&digest_, offset_ | level_, length_ - offset_)\<close>,
  and \<open>put_digest\<close> is
  \<^verbatim>\<open>if (tree_off % kNodeSize == 0) memset(out, 0, kNodeSize); digest_.CopyTo(out, kLength)\<close>.
\<close>

definition begin_node :: "Tree \<Rightarrow> mx_status \<times> Digest" where
  "begin_node t =
     (if offset_m t mod kNodeSize = 0
      then DigestInit (digest_m t) (offset_m t OR level_m t) (length_m t - offset_m t)
      else (NO_ERROR, digest_m t))"

definition put_digest :: "byte list \<Rightarrow> ptr \<Rightarrow> size_t \<Rightarrow> Digest \<Rightarrow> byte list option" where
  "put_digest mem out tree_off digest =
     (case (if tree_off mod kNodeSize = 0
            then store mem out (replicate (unat kNodeSize) 0) else Some mem) of
        None \<Rightarrow> None
      | Some mem1 \<Rightarrow> store mem1 out (Digest_CopyTo digest))"

text \<open>
  \<^verbatim>\<open>Tree::CreateUpdate\<close> and its \<^verbatim>\<open>while (length > 0 && rc == NO_ERROR)\<close> loop. The loop
  hashes up to the end of the current node, stops inside a node that is not the last,
  finishes the node, stores its digest in the tree and feeds it to the next level up.
\<close>

function CreateUpdate ::
    "hash \<Rightarrow> Tree \<Rightarrow> ptr \<Rightarrow> size_t \<Rightarrow> ptr \<Rightarrow> byte list \<Rightarrow> mx_status \<times> Tree \<times> byte list"
  and CreateUpdate_loop ::
    "hash \<Rightarrow> Tree \<Rightarrow> ptr \<Rightarrow> size_t \<Rightarrow> ptr \<Rightarrow> size_t \<Rightarrow> ptr \<Rightarrow> byte list
       \<Rightarrow> mx_status \<times> Tree \<times> byte list"
  where
  "CreateUpdate H t data len tree mem =
     (if \<not> offset_m t + len \<ge> offset_m t then (ASSERT_FAILED, t, mem)
      else if \<not> initialized_m t then (ERR_BAD_STATE, t, mem)
      else if len = 0 then (NO_ERROR, t, mem)
      else if offset_m t + len > length_m t then (ERR_OUT_OF_RANGE, t, mem)
      else if data = nullptr \<or> (tree = nullptr \<and> length_m t > kNodeSize)
        then (ERR_INVALID_ARGS, t, mem)
      else let tree_off = (offset_m t - (offset_m t mod kNodeSize)) div kDigestsPerNode;
               out = ptr_add tree tree_off;
               next = ptr_add tree (NextAligned (length_m t))
           in CreateUpdate_loop H t data len out tree_off next mem)"
| "CreateUpdate_loop H t inp len out tree_off next mem =
     (if len = 0 then (NO_ERROR, t, mem)
      else case begin_node t of (rc1, d1) \<Rightarrow>
        if rc1 \<noteq> NO_ERROR then (rc1, t, mem)
        else case DigestUpdate d1 mem inp (offset_m t) len of (rc2, d2, chunk) \<Rightarrow>
          if rc2 \<noteq> NO_ERROR then (rc2, t, mem)
          else let inp' = ptr_add inp chunk;
                   off' = offset_m t + chunk;
                   len' = len - chunk
               in if off' mod kNodeSize \<noteq> 0 \<and> off' \<noteq> length_m t
                  then (NO_ERROR, advance t off' d2, mem)
                  else let t1 = advance t off' (DigestFinal H d2 off')
                    in if length_m t \<le> kNodeSize then (NO_ERROR, t1, mem)
                       else case put_digest mem out tree_off (digest_m t1) of
                           None \<Rightarrow> (MEM_FAULT, t1, mem)
                         | Some mem2 \<Rightarrow>
                             (case next_m t1 of
                                None \<Rightarrow> (MEM_FAULT, t1, mem2)
                              | Some n \<Rightarrow>
                                  (case CreateUpdate H n out kLength next mem2 of
                                     (rc, n', mem3) \<Rightarrow>
                                       let t2 = set_next t1 n'
                                       in if rc \<noteq> NO_ERROR then (rc, t2, mem3)
                                          else CreateUpdate_loop H t2 inp' len'
                                                 (ptr_add out kLength) (tree_off + kLength)
                                                 next mem3)))"
  by pat_completeness auto

text \<open>
  The recursion into the next level is nested: the loop goes on with the object that the
  call returned. The chain an update returns is as long as the one it got.
\<close>

lemma size_advance [simp]: "size (advance t off d) = size t"
  by (cases t) (simp add: advance_def)

lemma next_advance [simp]: "next_m (advance t off d) = next_m t"
  by (simp add: advance_def)

lemma size_set_next: "next_m t = Some n \<Longrightarrow> size n' = size n \<Longrightarrow> size (set_next t n') = size t"
  by (cases t) (simp add: set_next_def)

lemma size_next_less: "next_m t = Some n \<Longrightarrow> size n < size t"
  by (cases t) simp

lemma DigestUpdate_chunk:
  "DigestUpdate d mem inp off len = (rc, d', chunk) \<Longrightarrow>
   chunk = min len (kNodeSize - (off mod kNodeSize))"
  by (auto simp: DigestUpdate_def Let_def split: option.splits)

lemma chunk_bounds:
  assumes "len \<noteq> 0"
  shows "min len (kNodeSize - (off mod kNodeSize)) \<noteq> 0"
    and "min len (kNodeSize - (off mod kNodeSize)) \<le> len"
proof -
  have "off mod kNodeSize < kNodeSize"
    by (simp add: kNodeSize_def word_mod_less_divisor)
  then have "kNodeSize - (off mod kNodeSize) \<noteq> 0"
    by auto
  then show "min len (kNodeSize - (off mod kNodeSize)) \<noteq> 0"
    using assms by (auto simp: min_def)
  show "min len (kNodeSize - (off mod kNodeSize)) \<le> len"
    by simp
qed

lemma chunk_decreases:
  "len \<noteq> 0 \<Longrightarrow> unat (len - min len (kNodeSize - (off mod kNodeSize))) < unat len"
  using chunk_bounds [of len off]
  by (metis unat_sub word_neq_0_conv unat_eq_zero diff_less unat_gt_0)

lemma CreateUpdate_size_dom:
  "CreateUpdate_CreateUpdate_loop_dom (Inl (H, t, data, len, tree, mem)) \<Longrightarrow>
     size (fst (snd (CreateUpdate H t data len tree mem))) = size t"
  "CreateUpdate_CreateUpdate_loop_dom (Inr (H, t, inp, len, out, tree_off, nxt, mem)) \<Longrightarrow>
     size (fst (snd (CreateUpdate_loop H t inp len out tree_off nxt mem))) = size t"
proof (induct rule: CreateUpdate_CreateUpdate_loop.pinduct)
  case (1 H t data len tree mem)
  then show ?case
    by (simp add: CreateUpdate.psimps Let_def)
next
  case (2 H t inp len out tree_off nxt mem)
  note ps = CreateUpdate_loop.psimps [OF "2.hyps"(1)]
  show ?case
  proof (cases "len = 0")
    case True
    then show ?thesis unfolding ps by simp
  next
    case len: False
    obtain rc1 d1 where bn: "begin_node t = (rc1, d1)"
      by (cases "begin_node t")
    obtain rc2 d2 chunk where du: "DigestUpdate d1 mem inp (offset_m t) len = (rc2, d2, chunk)"
      by (cases "DigestUpdate d1 mem inp (offset_m t) len")
    define off' where "off' = offset_m t + chunk"
    define t1 where "t1 = advance t off' (DigestFinal H d2 off')"
    show ?thesis
    proof (cases "rc1 = NO_ERROR \<and> rc2 = NO_ERROR \<and> \<not> (off' mod kNodeSize \<noteq> 0 \<and> off' \<noteq> length_m t)
        \<and> \<not> length_m t \<le> kNodeSize")
      case False
      then show ?thesis
        using len by (auto simp: ps bn du Let_def off'_def)
    next
      case go: True
      show ?thesis
      proof (cases "put_digest mem out tree_off (digest_m t1)")
        case None
        then show ?thesis
          using len go by (simp add: ps bn du Let_def off'_def t1_def)
      next
        case (Some mem2)
        show ?thesis
        proof (cases "next_m t")
          case None
          then show ?thesis
            using len go Some by (simp add: ps bn du Let_def off'_def t1_def)
        next
          case (Some n)
          note nx = this
          obtain rc n' mem3 where cu: "CreateUpdate H n out kLength nxt mem2 = (rc, n', mem3)"
            by (cases "CreateUpdate H n out kLength nxt mem2")
          have ih1: "size n' = size n"
            using "2.hyps"(2) [of rc1 d1 rc2 "(d2, chunk)" d2 chunk "ptr_add inp chunk" off'
                "len - chunk" t1 mem2 n]
            using len go bn du \<open>put_digest mem out tree_off (digest_m t1) = Some mem2\<close> nx cu
            by (simp add: off'_def t1_def)
          have nx1: "next_m t1 = Some n"
            using nx by (simp add: t1_def)
          have sz: "size (set_next t1 n') = size t"
            using size_set_next [of t1 n n'] ih1 nx by (simp add: t1_def)
          show ?thesis
          proof (cases "rc = NO_ERROR")
            case False
            then show ?thesis
              using len go \<open>put_digest mem out tree_off (digest_m t1) = Some mem2\<close> nx1 cu sz
              by (simp add: ps bn du Let_def off'_def [symmetric] t1_def [symmetric])
          next
            case True
            have ih2: "size (fst (snd (CreateUpdate_loop H (set_next t1 n') (ptr_add inp chunk)
                 (len - chunk) (ptr_add out kLength) (tree_off + kLength) nxt mem3))) =
                 size (set_next t1 n')"
              using "2.hyps"(3) [of rc1 d1 rc2 "(d2, chunk)" d2 chunk "ptr_add inp chunk" off'
                "len - chunk" t1 mem2 n rc "(n', mem3)" n' mem3 "set_next t1 n'"]
              using len go bn du \<open>put_digest mem out tree_off (digest_m t1) = Some mem2\<close> nx cu True
              by (simp add: off'_def t1_def)
            show ?thesis
              using len go \<open>put_digest mem out tree_off (digest_m t1) = Some mem2\<close> nx1 cu sz ih2 True
              by (simp add: ps bn du Let_def off'_def [symmetric] t1_def [symmetric])
          qed
        qed
      qed
    qed
  qed
qed

lemma CreateUpdate_total: "All CreateUpdate_CreateUpdate_loop_dom"
proof (relation "inv_image (less_than <*lex*> less_than <*lex*> less_than)
     (\<lambda>x. case x of Inl (H, t, data, len, tree, mem) \<Rightarrow> (size t, Suc 0, 0)
          | Inr (H, t, inp, len, out, tree_off, nxt, mem) \<Rightarrow> (size t, 0, unat len))",
    goal_cases)
  case 1
  show ?case by (intro wf_inv_image wf_lex_prod wf_less_than)
next
  case 2
  show ?case by simp
next
  case (3 H t inp len out tree_off nxt mem x y xa ya xb yb xc xd xe xf x2 x2a)
  then show ?case
    using size_next_less [of t x2a] by simp
next
  case (4 H t inp len out tree_off nxt mem x y xa ya xb yb xc xd xe xf x2 x2a xg yc xh yd xi)
  have d: "CreateUpdate_CreateUpdate_loop_dom (Inl (H, x2a, out, kLength, nxt, x2))"
    using 4 by blast
  have "CreateUpdate H x2a out kLength nxt x2 = (xg, xh, yd)"
    using 4 by simp
  then have "size xh = size x2a"
    using CreateUpdate_size_dom(1) [OF d] by simp
  then have "size xi = size t"
    using 4 size_set_next [of xf x2a xh] by simp
  moreover have "yb = min len (kNodeSize - (offset_m t mod kNodeSize))"
    using 4(4,5) DigestUpdate_chunk [of y mem inp "offset_m t" len xa xb yb] by simp
  ultimately show ?case
    using 4(1,9) chunk_decreases [of len "offset_m t"] by simp
qed

termination CreateUpdate
  by (rule CreateUpdate_total)


declare CreateUpdate.simps [simp del] CreateUpdate_loop.simps [simp del]

lemma CreateUpdate_size:
  "size (fst (snd (CreateUpdate H t data len tree mem))) = size t"
  by (rule CreateUpdate_size_dom(1)) (rule CreateUpdate_total [THEN spec])

text \<open>
  \<^verbatim>\<open>Tree::CreateInit\<close>. The allocation \<^verbatim>\<open>new (&ac) Tree()\<close> succeeds while \<open>heap\<close>, the number
  of objects the allocator can still provide, is not zero.
\<close>

definition set_initialized :: "Tree \<Rightarrow> bool \<Rightarrow> Tree" where
  "set_initialized t b = Tree b (next_m t) (level_m t) (offset_m t) (length_m t) (digest_m t)"

definition set_digest :: "Tree \<Rightarrow> Digest \<Rightarrow> Tree" where
  "set_digest t d = Tree (initialized_m t) (next_m t) (level_m t) (offset_m t) (length_m t) d"

function CreateInit :: "nat \<Rightarrow> Tree \<Rightarrow> size_t \<Rightarrow> size_t \<Rightarrow> mx_status \<times> Tree \<times> nat" where
  "CreateInit heap t data_len tree_len =
     (let t1 = Tree True (next_m t) (level_m t) 0 data_len (digest_m t)
      in if data_len \<le> kNodeSize then (NO_ERROR, t1, heap)
         else case heap of
             0 \<Rightarrow> (ERR_NO_MEMORY, Tree True None (level_m t) 0 data_len (digest_m t), 0)
           | Suc heap' \<Rightarrow>
               let n = Tree False None (level_m t + 1) 0 0 Digest_new;
                   data_len' = NextAligned data_len
               in if tree_len < data_len' then (ERR_BUFFER_TOO_SMALL, set_next t1 n, heap')
                  else case CreateInit heap' n data_len' (tree_len - data_len') of
                         (rc, n', heap'') \<Rightarrow> (rc, set_next t1 n', heap''))"
  by pat_completeness auto
termination
proof (relation "measure (\<lambda>(heap, t, data_len, tree_len). unat data_len)", goal_cases)
  case 1
  show ?case by simp
next
  case (2 heap t data_len tree_len x x2 xa xb)
  then have "NextAligned data_len < data_len"
    using NextAligned_less [of data_len] by simp
  then show ?case
    using 2 by (simp add: word_less_nat_alt)
qed

declare CreateInit.simps [simp del]

text \<open>\<^verbatim>\<open>Tree::CreateFinalInternal\<close>, \<^verbatim>\<open>Tree::CreateFinal\<close> and the one-shot \<^verbatim>\<open>Tree::Create\<close>.\<close>

function CreateFinalInternal ::
  "hash \<Rightarrow> Tree \<Rightarrow> ptr \<Rightarrow> ptr \<Rightarrow> Digest option \<Rightarrow> byte list
     \<Rightarrow> mx_status \<times> Tree \<times> byte list \<times> Digest option" where
  "CreateFinalInternal H t data tree root mem =
     (if \<not> initialized_m t \<or> (level_m t = 0 \<and> offset_m t \<noteq> length_m t)
        then (ERR_BAD_STATE, t, mem, root)
      else if root = None \<or> (tree = nullptr \<and> length_m t > kNodeSize)
        then (ERR_INVALID_ARGS, t, mem, root)
      else case (if length_m t = 0
                 then (case DigestInit (digest_m t) 0 0 of
                         (rc0, d0) \<Rightarrow> (rc0, DigestFinal H d0 0))
                 else (NO_ERROR, digest_m t)) of
        (rc0, d0) \<Rightarrow>
          if rc0 \<noteq> NO_ERROR then (rc0, t, mem, root)
          else let t0 = set_digest t d0;
                   tail = ptr_add data (offset_m t0)
               in case CreateUpdate H t0 tail (length_m t0 - offset_m t0) tree mem of
                    (rc, t1, mem1) \<Rightarrow>
                      if rc \<noteq> NO_ERROR then (rc, t1, mem1, root)
                      else let t2 = set_initialized t1 False
                           in if length_m t2 \<le> kNodeSize
                              then (NO_ERROR, t2, mem1, Some (digest_m t2))
                              else let next = ptr_add tree (NextAligned (length_m t2))
                                   in case next_m t2 of
                                        None \<Rightarrow> (MEM_FAULT, t2, mem1, root)
                                      | Some n \<Rightarrow>
                                          (case CreateFinalInternal H n tree next root mem1 of
                                             (rc', n', mem2, root') \<Rightarrow>
                                               (rc', set_next t2 n', mem2, root')))"
  by pat_completeness auto
termination
proof (relation "measure (\<lambda>(H, t, data, tree, root, mem). size t)", goal_cases)
  case 1
  show ?case by simp
next
  case (2 H t data tree root mem x y xa xb xc ya xd yb xe xf x2)
  have "size xd = size xa"
    using CreateUpdate_size [of H xa xb "length_m xa - offset_m xa" tree mem] 2 
    by (metis fst_conv snd_conv)
  moreover have "size xa = size t"
    using 2 by (cases t) (simp add: set_digest_def)
  moreover have "size xe = size xd"
    using 2 by (cases xd) (simp add: set_initialized_def)
  moreover have "size x2 < size xe"
    using 2 size_next_less by blast
  ultimately show ?case
    by simp
qed

declare CreateFinalInternal.simps [simp del]

definition CreateFinal ::
  "hash \<Rightarrow> Tree \<Rightarrow> ptr \<Rightarrow> Digest option \<Rightarrow> byte list
     \<Rightarrow> mx_status \<times> Tree \<times> byte list \<times> Digest option" where
  "CreateFinal H t tree root mem = CreateFinalInternal H t nullptr tree root mem"

definition Create ::
  "hash \<Rightarrow> nat \<Rightarrow> ptr \<Rightarrow> size_t \<Rightarrow> ptr \<Rightarrow> size_t \<Rightarrow> Digest option \<Rightarrow> byte list
     \<Rightarrow> mx_status \<times> byte list \<times> Digest option" where
  "Create H heap data data_len tree tree_len digest mem =
     (case CreateInit heap Tree_new data_len tree_len of
        (rc, mt1, heap') \<Rightarrow>
          if rc \<noteq> NO_ERROR then (rc, mem, digest)
          else case CreateUpdate H mt1 data data_len tree mem of
            (rc, mt2, mem1) \<Rightarrow>
              if rc \<noteq> NO_ERROR then (rc, mem1, digest)
              else case CreateFinal H mt2 tree digest mem1 of
                (rc, mt3, mem2, digest') \<Rightarrow> (rc, mem2, digest'))"

section \<open>The verifier\<close>

text \<open>
  \<^verbatim>\<open>Tree::VerifyRoot\<close>, \<^verbatim>\<open>Tree::VerifyLevel\<close> with its \<^verbatim>\<open>while (length > 0)\<close> loop, and
  \<^verbatim>\<open>Tree::Verify\<close> with its \<^verbatim>\<open>while (data_len > kNodeSize)\<close> loop.
\<close>

definition VerifyRoot ::
  "hash \<Rightarrow> ptr \<Rightarrow> size_t \<Rightarrow> uint64_t \<Rightarrow> Digest \<Rightarrow> byte list \<Rightarrow> mx_status" where
  "VerifyRoot H data root_len level expected mem =
     (if (data = nullptr \<and> root_len \<noteq> 0) \<or> root_len > kNodeSize then ERR_INVALID_ARGS
      else case DigestInit Digest_new level (if root_len = 0 then 0 else kNodeSize) of
        (rc1, a1) \<Rightarrow>
          if rc1 \<noteq> NO_ERROR then rc1
          else case DigestUpdate a1 mem data 0 root_len of
            (rc2, a2, chunk) \<Rightarrow>
              if rc2 \<noteq> NO_ERROR then rc2
              else let actual = DigestFinal H a2 root_len
                   in if bytes_m actual = bytes_m expected then NO_ERROR
                      else ERR_IO_DATA_INTEGRITY)"

function VerifyLevel_loop ::
  "hash \<Rightarrow> Digest \<Rightarrow> ptr \<Rightarrow> size_t \<Rightarrow> ptr \<Rightarrow> size_t \<Rightarrow> size_t \<Rightarrow> uint64_t \<Rightarrow> byte list
     \<Rightarrow> mx_status" where
  "VerifyLevel_loop H actual inp data_len expected offset len level mem =
     (if len > 0
      then case DigestInit actual (offset OR level) (data_len - offset) of
        (rc1, a1) \<Rightarrow>
          if rc1 \<noteq> NO_ERROR then rc1
          else case DigestUpdate a1 mem inp offset len of
            (rc2, a2, chunk) \<Rightarrow>
              if rc2 \<noteq> NO_ERROR then rc2
              else let inp' = ptr_add inp chunk;
                       offset' = offset + chunk;
                       len' = len - chunk;
                       a3 = DigestFinal H a2 offset'
                   in case load mem expected (unat kLength) of
                        None \<Rightarrow> MEM_FAULT
                      | Some bs \<Rightarrow>
                          if Digest_CopyTo a3 \<noteq> bs then ERR_IO_DATA_INTEGRITY
                          else VerifyLevel_loop H a3 inp' data_len (ptr_add expected kLength)
                                 offset' len' level mem
      else NO_ERROR)"
  by pat_completeness auto
termination
proof (relation "measure (\<lambda>(H, actual, inp, data_len, expected, offset, len, level, mem). unat len)",
    goal_cases)
  case 1
  show ?case by simp
next
  case (2 H actual inp data_len expected offset len level mem x y xa ya xb yb xc xd xe xf x2)
  have "yb = min len (kNodeSize - (offset mod kNodeSize))"
    using 2 DigestUpdate_chunk [of y mem inp offset len xa xb yb] by simp
  then show ?case
    using 2 chunk_decreases [of len offset] by (simp add: word_greater_zero_iff)
qed

declare VerifyLevel_loop.simps [simp del]

definition VerifyLevel ::
  "hash \<Rightarrow> ptr \<Rightarrow> size_t \<Rightarrow> ptr \<Rightarrow> size_t \<Rightarrow> size_t \<Rightarrow> uint64_t \<Rightarrow> byte list \<Rightarrow> mx_status" where
  "VerifyLevel H data data_len tree offset len level mem =
     (if \<not> offset + len \<ge> offset then ASSERT_FAILED
      else if data = nullptr \<or> data_len \<le> kNodeSize \<or> tree = nullptr then ERR_INVALID_ARGS
      else if offset + len > data_len then ERR_OUT_OF_RANGE
      else let offset' = offset - (offset mod kNodeSize);
               len' = roundup (offset' + len) kNodeSize - offset';
               inp = ptr_add data offset';
               expected = ptr_add tree (offset' div kDigestsPerNode)
           in VerifyLevel_loop H Digest_new inp data_len expected offset' len' level mem)"

function Verify_loop ::
  "hash \<Rightarrow> ptr \<Rightarrow> size_t \<Rightarrow> ptr \<Rightarrow> size_t \<Rightarrow> size_t \<Rightarrow> size_t \<Rightarrow> uint64_t \<Rightarrow> size_t
     \<Rightarrow> Digest \<Rightarrow> byte list \<Rightarrow> mx_status" where
  "Verify_loop H data data_len tree tree_len offset len level root_len root mem =
     (if data_len > kNodeSize
      then let rc = VerifyLevel H data data_len tree offset len level mem
           in if rc \<noteq> NO_ERROR then rc
              else let data' = tree;
                       root_len' = NextLength data_len;
                       data_len' = NextAligned data_len;
                       tree' = ptr_add tree data_len'
                   in if tree_len < data_len' then ERR_BUFFER_TOO_SMALL
                      else Verify_loop H data' data_len' tree' (tree_len - data_len')
                             (offset div kDigestsPerNode) (len div kDigestsPerNode)
                             (level + 1) root_len' root mem
      else VerifyRoot H data root_len level root mem)"
  by pat_completeness auto
termination
proof (relation "measure (\<lambda>(H, data, data_len, tree, tree_len, offset, len, level, root_len, root,
      mem). unat data_len)", goal_cases)
  case 1
  show ?case by simp
next
  case (2 H data data_len tree tree_len offset len level root_len root mem x xa xb xc xd)
  then have "NextAligned data_len < data_len"
    using NextAligned_less [of data_len] by simp
  then show ?case
    using 2 by (simp add: word_less_nat_alt)
qed

declare Verify_loop.simps [simp del]

definition Verify ::
  "hash \<Rightarrow> ptr \<Rightarrow> size_t \<Rightarrow> ptr \<Rightarrow> size_t \<Rightarrow> size_t \<Rightarrow> size_t \<Rightarrow> Digest \<Rightarrow> byte list
     \<Rightarrow> mx_status" where
  "Verify H data data_len tree tree_len offset len root mem =
     Verify_loop H data data_len tree tree_len offset len 0 data_len root mem"


section \<open>Definitions for the statements\<close>

text \<open>
  The bytes one node absorbs: the locality, the length tag, the payload and the zero
  padding up to \<open>NODE_SIZE\<close> bytes of payload.
\<close>

definition node_msg :: "uint64_t \<Rightarrow> uint32_t \<Rightarrow> byte list \<Rightarrow> byte list" where
  "node_msg locality len32 payload =
     le_bytes 8 locality @ le_bytes 4 len32 @ payload @ replicate (8192 - length payload) 0"

text \<open>
  A stand-in for the hash primitive in the closed instances below: the number of bytes
  plus the sum of the bytes.
\<close>

definition toy_hash :: hash where
  "toy_hash bs = of_nat (length bs + sum_list (map unat bs))"


section \<open>One pass of the update loop\<close>

text \<open>
  The body of the \<^verbatim>\<open>while (length > 0)\<close> loop of \<^verbatim>\<open>Tree::CreateUpdate\<close>, cut at the
  points where it returns or goes round again: hashing one chunk into the current node,
  completing the node and handing its digest to the next level, and the pass as a whole.
  \<open>loop_unfold\<close> below shows that the loop is the iteration of \<open>loop_step\<close>.
\<close>

definition hash_chunk ::
  "Tree \<Rightarrow> byte list \<Rightarrow> ptr \<Rightarrow> size_t \<Rightarrow> mx_status \<times> Digest \<times> size_t" where
  "hash_chunk t mem inp len =
     (case begin_node t of
        (rc1, d1) \<Rightarrow>
          if rc1 \<noteq> NO_ERROR then (rc1, d1, 0)
          else DigestUpdate d1 mem inp (offset_m t) len)"

definition finish_node ::
  "hash \<Rightarrow> Tree \<Rightarrow> ptr \<Rightarrow> size_t \<Rightarrow> ptr \<Rightarrow> size_t \<Rightarrow> ptr \<Rightarrow> byte list
     \<Rightarrow> (mx_status \<times> Tree \<times> byte list) + (Tree \<times> ptr \<times> size_t \<times> ptr \<times> size_t \<times> byte list)" where
  "finish_node H t1 inp' len' out tree_off next mem =
     (if length_m t1 \<le> kNodeSize then Inl (NO_ERROR, t1, mem)
      else case put_digest mem out tree_off (digest_m t1) of
          None \<Rightarrow> Inl (MEM_FAULT, t1, mem)
        | Some mem2 \<Rightarrow>
            (case next_m t1 of
               None \<Rightarrow> Inl (MEM_FAULT, t1, mem2)
             | Some n \<Rightarrow>
                 (case CreateUpdate H n out kLength next mem2 of
                    (rc, n', mem3) \<Rightarrow>
                      if rc \<noteq> NO_ERROR then Inl (rc, set_next t1 n', mem3)
                      else Inr (set_next t1 n', inp', len', ptr_add out kLength,
                                tree_off + kLength, mem3))))"

definition loop_step ::
  "hash \<Rightarrow> Tree \<Rightarrow> ptr \<Rightarrow> size_t \<Rightarrow> ptr \<Rightarrow> size_t \<Rightarrow> ptr \<Rightarrow> byte list
     \<Rightarrow> (mx_status \<times> Tree \<times> byte list) + (Tree \<times> ptr \<times> size_t \<times> ptr \<times> size_t \<times> byte list)" where
  "loop_step H t inp len out tree_off next mem =
     (case hash_chunk t mem inp len of
        (rc, d2, chunk) \<Rightarrow>
          if rc \<noteq> NO_ERROR then Inl (rc, t, mem)
          else let off' = offset_m t + chunk
               in if off' mod kNodeSize \<noteq> 0 \<and> off' \<noteq> length_m t
                  then Inl (NO_ERROR, advance t off' d2, mem)
                  else finish_node H (advance t off' (DigestFinal H d2 off')) (ptr_add inp chunk)
                         (len - chunk) out tree_off next mem)"


text \<open>
  A caller that feeds the data in pieces: \<^verbatim>\<open>CreateUpdate\<close> once per chunk, stopping at the
  first error, and \<^verbatim>\<open>CreateInit\<close>, the chunks, \<^verbatim>\<open>CreateFinal\<close> in the order of the one-shot
  \<^verbatim>\<open>Tree::Create\<close>.
\<close>

fun CreateUpdates ::
  "hash \<Rightarrow> Tree \<Rightarrow> byte list list \<Rightarrow> ptr \<Rightarrow> byte list \<Rightarrow> mx_status \<times> Tree \<times> byte list" where
  "CreateUpdates H t [] tree mem = (NO_ERROR, t, mem)"
| "CreateUpdates H t (c # cs) tree mem =
     (case CreateUpdate H t (Data c 0) (of_nat (length c)) tree mem of
        (rc, t', mem') \<Rightarrow>
          if rc \<noteq> NO_ERROR then (rc, t', mem') else CreateUpdates H t' cs tree mem')"

definition CreateChunked ::
  "hash \<Rightarrow> nat \<Rightarrow> byte list list \<Rightarrow> size_t \<Rightarrow> ptr \<Rightarrow> size_t \<Rightarrow> Digest option \<Rightarrow> byte list
     \<Rightarrow> mx_status \<times> byte list \<times> Digest option" where
  "CreateChunked H heap cs data_len tree tree_len digest mem =
     (case CreateInit heap Tree_new data_len tree_len of
        (rc, mt1, heap') \<Rightarrow>
          if rc \<noteq> NO_ERROR then (rc, mem, digest)
          else case CreateUpdates H mt1 cs tree mem of
            (rc, mt2, mem1) \<Rightarrow>
              if rc \<noteq> NO_ERROR then (rc, mem1, digest)
              else case CreateFinal H mt2 tree digest mem1 of
                (rc, mt3, mem2, digest') \<Rightarrow> (rc, mem2, digest'))"


text \<open>
  The same caller making one more call of \<^verbatim>\<open>CreateFinal\<close>, with a tree pointer and a root
  pointer of its own, between two runs of chunks, and carrying on whatever that call returned.
\<close>

definition CreateRetried ::
  "hash \<Rightarrow> nat \<Rightarrow> byte list list \<Rightarrow> ptr \<Rightarrow> Digest option \<Rightarrow> byte list list \<Rightarrow> size_t \<Rightarrow> ptr
     \<Rightarrow> size_t \<Rightarrow> Digest option \<Rightarrow> byte list \<Rightarrow> mx_status \<times> byte list \<times> Digest option" where
  "CreateRetried H heap cs1 tree0 root0 cs2 data_len tree tree_len digest mem =
     (case CreateInit heap Tree_new data_len tree_len of
        (rc, mt1, heap') \<Rightarrow>
          if rc \<noteq> NO_ERROR then (rc, mem, digest)
          else case CreateUpdates H mt1 cs1 tree mem of
            (rc, mt2, mem1) \<Rightarrow>
              if rc \<noteq> NO_ERROR then (rc, mem1, digest)
              else case CreateFinal H mt2 tree0 root0 mem1 of
                (rc0, mt3, mem2, digest0) \<Rightarrow>
                  (case CreateUpdates H mt3 cs2 tree mem2 of
                     (rc, mt4, mem3) \<Rightarrow>
                       if rc \<noteq> NO_ERROR then (rc, mem3, digest)
                       else case CreateFinal H mt4 tree digest mem3 of
                         (rc, mt5, mem4, digest') \<Rightarrow> (rc, mem4, digest')))"


section \<open>The bytes a verification reads\<close>

text \<open>
  \<open>peek\<close> is the byte \<open>i\<close> places after a pointer, \<open>None\<close> outside the buffer.
  \<open>aligned_range\<close> is the alignment step of \<^verbatim>\<open>Tree::VerifyLevel\<close>: the offset rounded down to
  a node boundary and the length \<^verbatim>\<open>roundup(offset + length, kNodeSize) - offset\<close> taken from the
  rounded offset.  \<open>touched\<close> follows the \<^verbatim>\<open>while (data_len > kNodeSize)\<close> loop of
  \<^verbatim>\<open>Tree::Verify\<close> and collects, first, the positions of the current level that are hashed
  and, second, the positions of the tree buffer that are read: below the top level the nodes of
  the aligned range and one digest of \<open>kLength\<close> bytes per such node in the next level, at the
  top level the first \<open>root_len\<close> bytes.  \<open>base\<close> is the position in the tree buffer where the
  next level starts.
\<close>

definition peek :: "byte list \<Rightarrow> ptr \<Rightarrow> nat \<Rightarrow> byte option" where
  "peek mem p i =
     (case p of
        nullptr \<Rightarrow> None
      | Data bs off \<Rightarrow> (if off + i < length bs then Some (bs ! (off + i)) else None)
      | TreeMem off \<Rightarrow> (if off + i < length mem then Some (mem ! (off + i)) else None))"

definition aligned_range :: "size_t \<Rightarrow> size_t \<Rightarrow> size_t \<times> size_t" where
  "aligned_range offset len =
     (let offset' = offset - (offset mod kNodeSize)
      in (offset', roundup (offset' + len) kNodeSize - offset'))"

function touched :: "size_t \<Rightarrow> size_t \<Rightarrow> size_t \<Rightarrow> size_t \<Rightarrow> nat \<Rightarrow> nat set \<times> nat set" where
  "touched data_len root_len offset len base =
     (if data_len > kNodeSize
      then case aligned_range offset len of
        (a, l) \<Rightarrow>
          (case touched (NextAligned data_len) (NextLength data_len) (offset div kDigestsPerNode)
                  (len div kDigestsPerNode) (base + unat (NextAligned data_len)) of
             (own', rest') \<Rightarrow>
               ({unat a ..< unat a + unat l},
                {base + unat (a div kDigestsPerNode) ..<
                   base + unat (a div kDigestsPerNode) + 32 * ((unat l + 8191) div 8192)}
                \<union> (\<lambda>i. base + i) ` own' \<union> rest'))
      else ({0 ..< unat root_len}, {}))"
  by pat_completeness auto
termination
proof (relation "measure (\<lambda>(data_len, root_len, offset, len, base). unat data_len)", goal_cases)
  case 1
  show ?case by simp
next
  case (2 data_len root_len offset len base x xa)
  then have "NextAligned data_len < data_len"
    using NextAligned_less [of data_len] by simp
  then show ?case
    by (simp add: word_less_nat_alt)
qed

declare touched.simps [simp del]


section \<open>The levels of a builder\<close>

text \<open>
  \<open>skel\<close> lists, from level 0 upwards, the \<^verbatim>\<open>initialized_\<close> flag and the \<^verbatim>\<open>level_\<close> number of
  each \<^verbatim>\<open>Tree\<close> object of a builder.  \<open>upd_ok\<close> collects what one call of
  \<^verbatim>\<open>CreateUpdate\<close> guarantees: the list is unchanged, \<open>ERR_BAD_STATE\<close> is returned only when
  some level is not initialised, and \<open>ERR_INVALID_ARGS\<close> only when a pointer is null.
  \<open>levels_from\<close> holds of a list whose levels are all initialised and numbered consecutively.
\<close>

fun skel :: "Tree \<Rightarrow> (bool \<times> uint64_t) list" where
  "skel (Tree i n l off len d) = (i, l) # (case n of None \<Rightarrow> [] | Some m \<Rightarrow> skel m)"

definition upd_ok :: "Tree \<Rightarrow> bool \<Rightarrow> mx_status \<times> Tree \<times> byte list \<Rightarrow> bool" where
  "upd_ok t nonnull r =
     (case r of
        (rc, t', mem') \<Rightarrow>
          skel t' = skel t \<and>
          (rc = ERR_BAD_STATE \<longrightarrow> \<not> list_all fst (skel t)) \<and>
          (rc = ERR_INVALID_ARGS \<longrightarrow> \<not> nonnull))"


fun levels_from :: "uint64_t \<Rightarrow> (bool \<times> uint64_t) list \<Rightarrow> bool" where
  "levels_from l [] = True"
| "levels_from l ((i, l') # xs) = (i \<and> l' = l \<and> levels_from (l + 1) xs)"

text \<open>
  A caller making any calls of \<^verbatim>\<open>CreateUpdate\<close>, one per triple of data pointer, length
  and tree pointer, and going on whatever they return.
\<close>

fun CreateUpdate_calls ::
  "hash \<Rightarrow> Tree \<Rightarrow> (ptr \<times> size_t \<times> ptr) list \<Rightarrow> byte list \<Rightarrow> Tree \<times> byte list" where
  "CreateUpdate_calls H t [] mem = (t, mem)"
| "CreateUpdate_calls H t ((data, len, tree) # cs) mem =
     (case CreateUpdate H t data len tree mem of
        (rc, t', mem') \<Rightarrow> CreateUpdate_calls H t' cs mem')"


text \<open>
  A caller who ignores the error of \<^verbatim>\<open>CreateInit\<close>: \<^verbatim>\<open>CreateInit\<close> for 8193 bytes with a tree
  buffer of length 0, two updates of 8192 bytes and of one byte with a tree buffer of 8192
  bytes, and \<^verbatim>\<open>CreateFinal\<close>.  The result holds the four statuses and the builder before and
  after \<^verbatim>\<open>CreateFinal\<close>.
\<close>

definition failed_init_run :: "hash \<Rightarrow> mx_status list \<times> Tree \<times> Tree" where
  "failed_init_run H =
     (case CreateInit (Suc 0) Tree_new 8193 0 of
        (rc0, t0, heap0) \<Rightarrow>
          (case CreateUpdate H t0 (Data (replicate 8192 0) 0) 8192 (TreeMem 0) (replicate 8192 0) of
             (rc1, t1, mem1) \<Rightarrow>
               (case CreateUpdate H t1 (Data [0] 0) 1 (TreeMem 0) mem1 of
                  (rc2, t2, mem2) \<Rightarrow>
                    (case CreateFinal H t2 (TreeMem 0) (Some Digest_new) mem2 of
                       (rc3, t3, mem3, root3) \<Rightarrow> ([rc0, rc1, rc2, rc3], t2, t3)))))"

section \<open>Evaluation of the builder and the verifier on one node\<close>

lemma le_bytes_zero: "le_bytes n 0 = replicate n 0"
  by (simp add: le_bytes_def map_replicate_const)

lemma CreateInit_small:
  "data_len \<le> kNodeSize \<Longrightarrow>
   CreateInit heap t data_len tree_len =
     (NO_ERROR, Tree True (next_m t) (level_m t) 0 data_len (digest_m t), heap)"
  by (simp add: CreateInit.simps)

lemma CreateUpdate_zero:
  "initialized_m t \<Longrightarrow> CreateUpdate H t data 0 tree mem = (NO_ERROR, t, mem)"
  by (simp add: CreateUpdate.simps)

lemma DigestInit_ok:
  "len < UINT32_MAX \<Longrightarrow>
   DigestInit d locality len =
     (NO_ERROR, d\<lparr>ctx := le_bytes 8 locality @ le_bytes 4 (ucast (min len kNodeSize) :: uint32_t)\<rparr>)"
  by (simp add: DigestInit_def Digest_Init_def Digest_Update_def Let_def)

lemma empty_Create:
  "Create H heap data 0 tree tree_len (Some d) mem =
     (NO_ERROR, mem, Some \<lparr>ctx = replicate 12 0, bytes_m = H (replicate 12 0)\<rparr>)"
  apply (simp add: Create_def CreateInit_small Tree_new_def CreateUpdate_zero CreateFinal_def)
  apply (subst CreateFinalInternal.simps)
  apply (simp add: DigestInit_ok UINT32_MAX_def DigestFinal_def Digest_Final_def set_digest_def
      CreateUpdate_zero set_initialized_def Digest_new_def le_bytes_zero kNodeSize_def
      replicate_add [symmetric])
  done

lemma empty_VerifyRoot:
  "bytes_m r = H (replicate 12 0) \<Longrightarrow> Verify H data 0 tree tree_len offset len r mem = NO_ERROR"
  unfolding Verify_def
  apply (subst Verify_loop.simps)
  apply (simp add: kNodeSize_def VerifyRoot_def DigestInit_ok UINT32_MAX_def DigestUpdate_def load_def
      Digest_Update_def DigestFinal_def Digest_Final_def Digest_new_def le_bytes_zero
      replicate_add [symmetric])
  done

lemma small_facts:
  assumes "L \<noteq> 0" "L < kNodeSize"
  shows "L mod kNodeSize = L" "min L kNodeSize = L" "L < UINT32_MAX" "L \<le> kNodeSize"
    "\<not> kNodeSize < L" "unat (kNodeSize - L) = 8192 - unat L" "min L (kNodeSize - 0) = L"
    "NextAligned L = 0"
proof -
  show "L mod kNodeSize = L" using assms by (simp add: mod_word_less)
  show "min L kNodeSize = L" using assms by simp
  show "L < UINT32_MAX" using assms unfolding kNodeSize_def UINT32_MAX_def by unat_arith
  show "L \<le> kNodeSize" using assms by simp
  show "\<not> kNodeSize < L" using assms by simp
  show "unat (kNodeSize - L) = 8192 - unat L" using assms unfolding kNodeSize_def by unat_arith
  show "min L (kNodeSize - 0) = L" using assms by simp
  show "NextAligned L = 0" using assms by (simp add: NextAligned_small)
qed

lemma load_Data_all: "load mem (Data bs 0) (length bs) = Some bs"
  by (simp add: load_def)

lemma short_Create:
  assumes "L \<noteq> 0" "L < kNodeSize" "length bs = unat L"
  shows "Create H heap (Data bs 0) L tree tree_len (Some d) mem =
     (NO_ERROR, mem, Some \<lparr>ctx = node_msg 0 (ucast L) bs, bytes_m = H (node_msg 0 (ucast L) bs)\<rparr>)"
proof -
  note sf = small_facts [OF assms(1,2)]
  have ld: "load mem (Data bs 0) (unat L) = Some bs"
    using load_Data_all [of mem bs] assms(3) by simp
  define t0 where "t0 = Tree True None 0 0 L Digest_new"
  define dg where "dg = \<lparr>ctx = node_msg 0 (ucast L) bs, bytes_m = H (node_msg 0 (ucast L) bs)\<rparr>"
  have bn: "begin_node t0 = (NO_ERROR, Digest_new\<lparr>ctx := le_bytes 8 (0::uint64_t) @ le_bytes 4 (ucast L :: uint32_t)\<rparr>)"
    by (simp add: begin_node_def t0_def DigestInit_ok sf)
  have lp: "CreateUpdate_loop H t0 (Data bs 0) L (ptr_add tree 0) 0 (ptr_add tree 0) mem =
      (NO_ERROR, Tree True None 0 L L dg, mem)"
    apply (subst CreateUpdate_loop.simps)
    apply (simp add: bn assms(1))
    apply (simp add: t0_def DigestUpdate_def sf ld Digest_Update_def DigestFinal_def Digest_Final_def
        advance_def Digest_new_def dg_def node_msg_def assms(1,3))
    done
  have up: "CreateUpdate H t0 (Data bs 0) L tree mem = (NO_ERROR, Tree True None 0 L L dg, mem)"
    apply (subst CreateUpdate.simps)
    using lp apply (simp add: t0_def assms(1) sf)
    done
  have fin: "CreateFinal H (Tree True None 0 L L dg) tree (Some d) mem =
      (NO_ERROR, Tree False None 0 L L dg, mem, Some dg)"
    unfolding CreateFinal_def
    apply (subst CreateFinalInternal.simps)
    apply (simp add: sf assms(1) set_digest_def CreateUpdate_zero set_initialized_def)
    done
  show ?thesis
    using up fin
    by (simp add: Create_def CreateInit_small sf Tree_new_def t0_def dg_def)
qed

lemma short_Verify:
  assumes "L \<noteq> 0" "L < kNodeSize" "length bs = unat L"
  shows "Verify H (Data bs 0) L tree tree_len offset len r mem =
     (if H (node_msg 0 (ucast kNodeSize) bs) = bytes_m r then NO_ERROR else ERR_IO_DATA_INTEGRITY)"
proof -
  note sf = small_facts [OF assms(1,2)]
  have ld: "load mem (Data bs 0) (unat L) = Some bs"
    using load_Data_all [of mem bs] assms(3) by simp
  have k: "kNodeSize < UINT32_MAX" "min kNodeSize kNodeSize = kNodeSize"
    by (simp_all add: kNodeSize_def UINT32_MAX_def)
  show ?thesis
    unfolding Verify_def
    apply (subst Verify_loop.simps)
    apply (simp add: sf VerifyRoot_def assms(1) DigestInit_ok k DigestUpdate_def ld
        Digest_Update_def DigestFinal_def Digest_Final_def Digest_new_def node_msg_def assms(3))
    done
qed

lemma le_bytes_4_8192: "le_bytes 4 (8192::uint32_t) = [0, 32, 0, 0]"
  by (simp add: le_bytes_def upt_rec drop_bit_eq_div)

lemma le_bytes_4_1: "le_bytes 4 (1::uint32_t) = [1, 0, 0, 0]"
  by (simp add: le_bytes_def upt_rec drop_bit_eq_div)

lemma Verify_out_of_range:
  assumes "kNodeSize < data_len" "data \<noteq> nullptr" "tree \<noteq> nullptr"
    and "unat data_len < unat offset + unat len"
  shows "Verify H data data_len tree tree_len offset len root mem =
     (if unat offset + unat len < 2 ^ 64 then ERR_OUT_OF_RANGE else ASSERT_FAILED)"
proof (cases "unat offset + unat len < 2 ^ 64")
  case True
  then have a: "offset \<le> offset + len"
    by (simp add: no_olen_add_nat)
  then have "unat (offset + len) = unat offset + unat len"
    using True by (simp add: unat_plus_simple)
  then have b: "data_len < offset + len"
    using assms(4) by (simp add: word_less_nat_alt)
  show ?thesis
    unfolding Verify_def
    apply (subst Verify_loop.simps)
    using assms(1-3) a b True apply (simp add: VerifyLevel_def leD)
    done
next
  case False
  then have a: "\<not> offset \<le> offset + len"
    by (simp add: no_olen_add_nat)
  show ?thesis
    unfolding Verify_def
    apply (subst Verify_loop.simps)
    using assms(1-3) a False apply (simp add: VerifyLevel_def)
    done
qed

lemma CreateInit_error_state:
  assumes "CreateInit heap Tree_new data_len tree_len = (rc, t, heap')" "rc \<noteq> NO_ERROR"
  shows "initialized_m t" "level_m t = 0" "offset_m t = 0" "length_m t = data_len"
    "kNodeSize < data_len"
proof -
  have big: "\<not> data_len \<le> kNodeSize"
    using assms by (auto simp: CreateInit.simps [of heap Tree_new])
  then show "kNodeSize < data_len" by simp
  have "initialized_m t \<and> level_m t = 0 \<and> offset_m t = 0 \<and> length_m t = data_len"
    using assms(1) big
    apply (subst (asm) CreateInit.simps)
    apply (auto simp: Tree_new_def set_next_def Let_def split: nat.splits if_splits prod.splits)
    done
  then show "initialized_m t" "level_m t = 0" "offset_m t = 0" "length_m t = data_len"
    by simp_all
qed

lemma NextAligned_8193: "NextAligned 8193 = 8192"
  by (simp add: NextAligned_def NextLength_def roundup_def kNodeSize_def kDigestsPerNode_eq)

lemma CreateInit_too_small_8193:
  "CreateInit (Suc 0) Tree_new 8193 0 =
     (ERR_BUFFER_TOO_SMALL,
      Tree True (Some (Tree False None 1 0 0 Digest_new)) 0 0 8193 Digest_new, 0)"
  apply (subst CreateInit.simps)
  apply (simp add: NextAligned_8193 Tree_new_def set_next_def kNodeSize_def Let_def)
  done

lemma CreateInit_no_memory_8193:
  "CreateInit 0 Tree_new 8193 8192 = (ERR_NO_MEMORY, Tree True None 0 0 8193 Digest_new, 0)"
  apply (subst CreateInit.simps)
  apply (simp add: Tree_new_def kNodeSize_def)
  done

lemma CreateUpdate_one_byte_8193:
  "CreateUpdate H (Tree True n 0 0 8193 Digest_new) (Data [7] 0) 1 (TreeMem 0) [] =
     (NO_ERROR,
      Tree True n 0 1 8193 \<lparr>ctx = le_bytes 8 (0::uint64_t) @ le_bytes 4 (8192::uint32_t) @ [7], bytes_m = 0\<rparr>,
      [])"
  apply (subst CreateUpdate.simps)
  apply (simp add: kNodeSize_def)
  apply (subst CreateUpdate_loop.simps)
  apply (simp add: begin_node_def kNodeSize_def DigestInit_ok UINT32_MAX_def DigestUpdate_def
      load_def Digest_Update_def Digest_new_def advance_def)
  done


section \<open>The update loop, pass by pass\<close>

lemma length_advance [simp]: "length_m (advance t off d) = length_m t"
  by (simp add: advance_def)

lemma loop_unfold:
  "CreateUpdate_loop H t inp len out tree_off next mem =
     (if len = 0 then (NO_ERROR, t, mem)
      else case loop_step H t inp len out tree_off next mem of
          Inl r \<Rightarrow> r
        | Inr (t2, inp', len', out', tree_off', mem3) \<Rightarrow>
            CreateUpdate_loop H t2 inp' len' out' tree_off' next mem3)"
  apply (subst CreateUpdate_loop.simps)
  apply (simp add: loop_step_def hash_chunk_def finish_node_def Let_def
      split: prod.split option.split)
  done


lemma shape_advance [simp]:
  "initialized_m (advance t off d) = initialized_m t"
  "level_m (advance t off d) = level_m t"
  "offset_m (advance t off d) = off"
  "digest_m (advance t off d) = d"
  by (simp_all add: advance_def)

lemma shape_set_next [simp]:
  "initialized_m (set_next t n) = initialized_m t"
  "level_m (set_next t n) = level_m t"
  "offset_m (set_next t n) = offset_m t"
  "length_m (set_next t n) = length_m t"
  "digest_m (set_next t n) = digest_m t"
  "next_m (set_next t n) = Some n"
  by (simp_all add: set_next_def)

lemma hash_chunk_chunk:
  "hash_chunk t mem inp len = (NO_ERROR, d2, c) \<Longrightarrow>
   c = min len (kNodeSize - (offset_m t mod kNodeSize))"
  by (auto simp: hash_chunk_def DigestUpdate_def Let_def split: prod.splits if_splits option.splits)

lemma finish_node_Inl:
  "finish_node H t1 inp' len' out tree_off next mem = Inl (rc, t', mem') \<Longrightarrow>
   initialized_m t' = initialized_m t1 \<and> level_m t' = level_m t1 \<and> length_m t' = length_m t1 \<and>
   offset_m t' = offset_m t1 \<and> digest_m t' = digest_m t1 \<and>
   (rc = NO_ERROR \<longrightarrow> length_m t1 \<le> kNodeSize \<and> t' = t1 \<and> mem' = mem)"
  by (auto simp: finish_node_def split: if_splits option.splits prod.splits)

lemma finish_node_Inr:
  "finish_node H t1 inp' len' out tree_off next mem = Inr (t2, inp2, len2, out2, tree_off2, mem3) \<Longrightarrow>
   initialized_m t2 = initialized_m t1 \<and> level_m t2 = level_m t1 \<and> length_m t2 = length_m t1 \<and>
   offset_m t2 = offset_m t1 \<and> digest_m t2 = digest_m t1 \<and> inp2 = inp' \<and> len2 = len' \<and>
   out2 = ptr_add out kLength \<and> tree_off2 = tree_off + kLength \<and> kNodeSize < length_m t1"
  by (auto simp: finish_node_def split: if_splits option.splits prod.splits)

lemma loop_step_Inl:
  assumes "loop_step H t inp len out tree_off next mem = Inl (rc, t', mem')"
  defines "chunk \<equiv> min len (kNodeSize - (offset_m t mod kNodeSize))"
  shows "initialized_m t' = initialized_m t" "level_m t' = level_m t" "length_m t' = length_m t"
    "rc = NO_ERROR \<Longrightarrow> offset_m t' = offset_m t + chunk"
    "rc = NO_ERROR \<Longrightarrow> mem' = mem"
    "rc = NO_ERROR \<Longrightarrow>
       ((offset_m t + chunk) mod kNodeSize \<noteq> 0 \<and> offset_m t + chunk \<noteq> length_m t) \<or>
       length_m t \<le> kNodeSize"
proof -
  obtain rc0 d2 c where hc: "hash_chunk t mem inp len = (rc0, d2, c)"
    by (cases "hash_chunk t mem inp len")
  have all: "initialized_m t' = initialized_m t \<and> level_m t' = level_m t \<and> length_m t' = length_m t \<and>
    (rc = NO_ERROR \<longrightarrow> offset_m t' = offset_m t + chunk \<and> mem' = mem \<and>
       (((offset_m t + chunk) mod kNodeSize \<noteq> 0 \<and> offset_m t + chunk \<noteq> length_m t) \<or>
       length_m t \<le> kNodeSize))"
  proof (cases "rc0 = NO_ERROR")
    case False
    then show ?thesis
      using assms(1) by (simp add: loop_step_def hc)
  next
    case True
    then have c: "c = chunk"
      using hash_chunk_chunk hc unfolding chunk_def by blast
    have ls_mid: "loop_step H t inp len out tree_off next mem =
          Inl (NO_ERROR, advance t (offset_m t + chunk) d2, mem)"
      if "(offset_m t + chunk) mod kNodeSize \<noteq> 0 \<and> offset_m t + chunk \<noteq> length_m t"
      using True c that by (simp add: loop_step_def hc Let_def)
    have ls_fin: "loop_step H t inp len out tree_off next mem =
          finish_node H (advance t (offset_m t + chunk) (DigestFinal H d2 (offset_m t + chunk)))
                (ptr_add inp chunk) (len - chunk) out tree_off next mem"
      if "\<not> ((offset_m t + chunk) mod kNodeSize \<noteq> 0 \<and> offset_m t + chunk \<noteq> length_m t)"
      using True c that by (auto simp add: loop_step_def hc Let_def)
    show ?thesis
    proof (cases "(offset_m t + chunk) mod kNodeSize \<noteq> 0 \<and> offset_m t + chunk \<noteq> length_m t")
      case mid: True
      have "Inl (NO_ERROR, advance t (offset_m t + chunk) d2, mem) = Inl (rc, t', mem')"
        using assms(1) ls_mid [OF mid] by simp
      then show ?thesis
        using mid by auto
    next
      case False
      have "finish_node H (advance t (offset_m t + chunk) (DigestFinal H d2 (offset_m t + chunk)))
          (ptr_add inp chunk) (len - chunk) out tree_off next mem = Inl (rc, t', mem')"
        using assms(1) ls_fin [OF False] by simp
      from finish_node_Inl [OF this] show ?thesis
        by auto
    qed
  qed
  then show "initialized_m t' = initialized_m t" "level_m t' = level_m t" "length_m t' = length_m t"
    "rc = NO_ERROR \<Longrightarrow> offset_m t' = offset_m t + chunk"
    "rc = NO_ERROR \<Longrightarrow> mem' = mem"
    "rc = NO_ERROR \<Longrightarrow>
       ((offset_m t + chunk) mod kNodeSize \<noteq> 0 \<and> offset_m t + chunk \<noteq> length_m t) \<or>
       length_m t \<le> kNodeSize"
    by auto
qed

lemma loop_step_Inr:
  assumes "loop_step H t inp len out tree_off next mem = Inr (t2, inp2, len2, out2, tree_off2, mem3)"
  defines "chunk \<equiv> min len (kNodeSize - (offset_m t mod kNodeSize))"
  shows "initialized_m t2 = initialized_m t" "level_m t2 = level_m t" "length_m t2 = length_m t"
    "offset_m t2 = offset_m t + chunk" "inp2 = ptr_add inp chunk" "len2 = len - chunk"
    "out2 = ptr_add out kLength" "tree_off2 = tree_off + kLength" "kNodeSize < length_m t"
    "(offset_m t + chunk) mod kNodeSize = 0 \<or> offset_m t + chunk = length_m t"
proof -
  obtain rc0 d2 c where hc: "hash_chunk t mem inp len = (rc0, d2, c)"
    by (cases "hash_chunk t mem inp len")
  have ok: "rc0 = NO_ERROR"
    using assms(1) by (auto simp: loop_step_def hc split: if_splits)
  then have c: "c = chunk"
    using hash_chunk_chunk hc unfolding chunk_def by blast
  have ls_mid: "loop_step H t inp len out tree_off next mem =
        Inl (NO_ERROR, advance t (offset_m t + chunk) d2, mem)"
    if "(offset_m t + chunk) mod kNodeSize \<noteq> 0 \<and> offset_m t + chunk \<noteq> length_m t"
    using ok c that by (simp add: loop_step_def hc Let_def)
  have ls_fin: "loop_step H t inp len out tree_off next mem =
        finish_node H (advance t (offset_m t + chunk) (DigestFinal H d2 (offset_m t + chunk)))
              (ptr_add inp chunk) (len - chunk) out tree_off next mem"
    if "\<not> ((offset_m t + chunk) mod kNodeSize \<noteq> 0 \<and> offset_m t + chunk \<noteq> length_m t)"
    using ok c that by (auto simp add: loop_step_def hc Let_def)
  have nm: "\<not> ((offset_m t + chunk) mod kNodeSize \<noteq> 0 \<and> offset_m t + chunk \<noteq> length_m t)"
  proof
    assume mid: "(offset_m t + chunk) mod kNodeSize \<noteq> 0 \<and> offset_m t + chunk \<noteq> length_m t"
    show False
      using assms(1) ls_mid [OF mid] by simp
  qed
  have "finish_node H (advance t (offset_m t + chunk) (DigestFinal H d2 (offset_m t + chunk)))
      (ptr_add inp chunk) (len - chunk) out tree_off next mem =
      Inr (t2, inp2, len2, out2, tree_off2, mem3)"
    using assms(1) ls_fin [OF nm] by simp
  from finish_node_Inr [OF this] nm
  show "initialized_m t2 = initialized_m t" "level_m t2 = level_m t" "length_m t2 = length_m t"
    "offset_m t2 = offset_m t + chunk" "inp2 = ptr_add inp chunk" "len2 = len - chunk"
    "out2 = ptr_add out kLength" "tree_off2 = tree_off + kLength" "kNodeSize < length_m t"
    "(offset_m t + chunk) mod kNodeSize = 0 \<or> offset_m t + chunk = length_m t"
    by auto
qed


lemma nat_split_node:
  obtains q r :: nat where "x = 8192 * q + r" "r < 8192" "x mod 8192 = r" "x div 8192 = q"
proof -
  have "x = 8192 * (x div 8192) + x mod 8192" "x mod 8192 < 8192"
    by simp_all
  then show thesis
    using that by blast
qed

lemma nat_room_aligned: "(x + (8192 - x mod 8192)) mod 8192 = (0::nat)"
proof -
  obtain q r where x: "x = 8192 * q + r" "r < 8192" "x mod 8192 = r"
    by (rule nat_split_node)
  have "x + (8192 - x mod 8192) = 8192 * (q + 1)"
    unfolding x(3) using x(1,2) by simp
  then show ?thesis
    by (metis mod_mult_self1_is_0)
qed

lemma nat_room_div: "(x + (8192 - x mod 8192)) div 8192 = x div 8192 + (1::nat)"
proof -
  obtain q r where x: "x = 8192 * q + r" "r < 8192" "x mod 8192 = r" "x div 8192 = q"
    by (rule nat_split_node)
  have "x + (8192 - x mod 8192) = 8192 * (q + 1)"
    unfolding x(3) using x(1,2) by simp
  then show ?thesis
    unfolding x(4) by simp
qed

lemma nat_mid_chunk:
  "(x + min l (8192 - x mod 8192)) mod 8192 \<noteq> (0::nat) \<Longrightarrow> min l (8192 - x mod 8192) = l"
  using nat_room_aligned [of x] by (cases "l \<le> 8192 - x mod 8192") (simp_all add: min_def)

lemma nat_inner: "a < 8192 - x mod 8192 \<Longrightarrow> (x + a) mod 8192 = x mod 8192 + (a::nat)"
proof -
  assume a: "a < 8192 - x mod 8192"
  obtain q r where x: "x = 8192 * q + r" "r < 8192" "x mod 8192 = r"
    by (rule nat_split_node)
  have "(x + a) mod 8192 = (8192 * q + (r + a)) mod 8192"
    unfolding x(1) by (simp add: add.assoc)
  also have "\<dots> = (r + a) mod 8192"
    by simp
  also have "\<dots> = r + a"
    using a unfolding x(3) by simp
  finally show ?thesis
    unfolding x(3) .
qed

lemma nat_inner_div: "a < 8192 - x mod 8192 \<Longrightarrow> (x + a) div 8192 = x div (8192::nat)"
proof -
  assume a: "a < 8192 - x mod 8192"
  obtain q r where x: "x = 8192 * q + r" "r < 8192" "x mod 8192 = r" "x div 8192 = q"
    by (rule nat_split_node)
  have "(x + a) div 8192 = (8192 * q + (r + a)) div 8192"
    unfolding x(1) by (simp add: add.assoc)
  also have "\<dots> = q + (r + a) div 8192"
    by simp
  also have "(r + a) div 8192 = 0"
    using a unfolding x(3) by simp
  finally show ?thesis
    unfolding x(4) by simp
qed


lemma unat_kNodeSize [simp]: "unat kNodeSize = 8192"
  by (simp add: kNodeSize_def)

lemma unat_mod_node: "unat (off mod kNodeSize) = unat off mod 8192"
  by (simp add: unat_mod)

lemma unat_room: "unat (kNodeSize - off mod kNodeSize) = 8192 - unat off mod 8192"
proof -
  have "off mod kNodeSize \<le> kNodeSize"
    by (simp add: word_le_nat_alt unat_mod_node)
  then show ?thesis
    by (simp add: unat_sub unat_mod_node)
qed

lemma unat_chunk:
  "unat (min len (kNodeSize - off mod kNodeSize)) = min (unat len) (8192 - unat off mod 8192)"
  by (simp add: min_def word_le_nat_alt unat_room)

lemma unat_add_chunk:
  assumes "unat off + unat len < 2 ^ 64"
  shows "unat (off + min len (kNodeSize - off mod kNodeSize)) =
         unat off + min (unat len) (8192 - unat off mod 8192)"
proof -
  have "unat off + unat (min len (kNodeSize - off mod kNodeSize)) < 2 ^ 64"
    using assms by (simp add: unat_chunk)
  then show ?thesis
    by (simp add: unat_add_lem [THEN iffD1] unat_chunk)
qed

lemma unat_sub_chunk:
  "unat (len - min len (kNodeSize - off mod kNodeSize)) =
   unat len - min (unat len) (8192 - unat off mod 8192)"
  by (simp add: unat_sub unat_chunk)

lemma loop_effect:
  assumes "unat (offset_m t) + unat len \<le> unat (length_m t)"
    and "CreateUpdate_loop H t inp len out tree_off nxt mem = (rc, t', mem')"
  shows "initialized_m t' = initialized_m t \<and> level_m t' = level_m t \<and>
         length_m t' = length_m t \<and> (rc = NO_ERROR \<longrightarrow> offset_m t' = offset_m t + len)"
  using assms
proof (induction len arbitrary: t inp out tree_off mem rule: measure_induct_rule [where f = unat])
  case (less len)
  define chunk where "chunk = min len (kNodeSize - (offset_m t mod kNodeSize))"
  have lt: "unat (length_m t) < 2 ^ 64"
    using unsigned_less [of "length_m t", where 'a = nat] by simp
  then have no: "unat (offset_m t) + unat len < 2 ^ 64"
    using less.prems(1) by simp
  note uc = unat_chunk [of len "offset_m t"] unat_add_chunk [OF no] unat_sub_chunk [of len "offset_m t"]
  show ?case
  proof (cases "len = 0")
    case True
    then show ?thesis
      using less.prems(2) by (simp add: loop_unfold [of H t inp 0])
  next
    case nz: False
    then have lpos: "0 < unat len"
      by (simp add: unat_gt_0)
    show ?thesis
    proof (cases "loop_step H t inp len out tree_off nxt mem")
      case (Inl r)
      then have r: "r = (rc, t', mem')"
        using less.prems(2) nz by (simp add: loop_unfold [of H t inp len])
      note f = loop_step_Inl [OF Inl [unfolded r], folded chunk_def]
      have "offset_m t' = offset_m t + len" if ok: "rc = NO_ERROR"
      proof -
        have "unat chunk = unat len"
        proof -
          show ?thesis
          proof (cases "length_m t \<le> kNodeSize")
            case False
            with f(6) [OF ok] have mid: "(offset_m t + chunk) mod kNodeSize \<noteq> 0"
              by simp
            then have "unat ((offset_m t + chunk) mod kNodeSize) \<noteq> 0"
              by (simp add: unat_eq_zero)
            then have "(unat (offset_m t) + min (unat len) (8192 - unat (offset_m t) mod 8192)) mod 8192 \<noteq> 0"
              unfolding chunk_def unat_mod_node uc .
            then show ?thesis
              unfolding chunk_def uc by (rule nat_mid_chunk)
          next
            case True
            then have "unat (length_m t) \<le> 8192"
              by (simp add: word_le_nat_alt)
            then show ?thesis
              using less.prems(1) lpos unfolding chunk_def uc by simp
          qed
        qed
        then have "chunk = len"
          by (simp add: word_unat_eq_iff)
        then show ?thesis
          using f(4) [OF ok] by simp
      qed
      then show ?thesis
        using f(1-3) by simp
    next
      case (Inr x)
      obtain t2 inp2 len2 out2 tree_off2 mem3 where x: "x = (t2, inp2, len2, out2, tree_off2, mem3)"
        by (cases x)
      note f = loop_step_Inr [OF Inr [unfolded x], folded chunk_def]
      have rec: "CreateUpdate_loop H t2 inp2 len2 out2 tree_off2 nxt mem3 = (rc, t', mem')"
        using less.prems(2) nz Inr x by (simp add: loop_unfold [of H t inp len])
      have dec: "unat len2 < unat len"
        using lpos unfolding f(6) chunk_def uc by simp
      have pre: "unat (offset_m t2) + unat len2 \<le> unat (length_m t2)"
        using less.prems(1) unfolding f(3,4,6) chunk_def uc by simp
      from less.IH [OF dec pre rec]
      have ih: "initialized_m t' = initialized_m t2" "level_m t' = level_m t2"
        "length_m t' = length_m t2" "rc = NO_ERROR \<longrightarrow> offset_m t' = offset_m t2 + len2"
        by simp_all
      show ?thesis
        using ih unfolding f by simp
    qed
  qed
qed

lemma CreateUpdate_effect:
  assumes "CreateUpdate H t data len tree mem = (rc, t', mem')"
  shows "initialized_m t' = initialized_m t \<and> level_m t' = level_m t \<and>
         length_m t' = length_m t \<and>
         (rc = NO_ERROR \<longrightarrow> offset_m t' = offset_m t + len \<and> initialized_m t)"
proof (cases "offset_m t \<le> offset_m t + len \<and> initialized_m t \<and> len \<noteq> 0 \<and>
    \<not> length_m t < offset_m t + len \<and> \<not> (data = nullptr \<or> (tree = nullptr \<and> kNodeSize < length_m t))")
  case False
  then show ?thesis
    using assms by (auto simp: CreateUpdate.simps [of H t] split: if_splits)
next
  case True
  then have c: "offset_m t \<le> offset_m t + len" "initialized_m t" "len \<noteq> 0"
    "\<not> length_m t < offset_m t + len" "data \<noteq> nullptr"
    "\<not> (tree = nullptr \<and> kNodeSize < length_m t)"
    by blast+
  have lp: "CreateUpdate_loop H t data len
      (ptr_add tree ((offset_m t - (offset_m t mod kNodeSize)) div kDigestsPerNode))
      ((offset_m t - (offset_m t mod kNodeSize)) div kDigestsPerNode)
      (ptr_add tree (NextAligned (length_m t))) mem = (rc, t', mem')"
    using assms unfolding CreateUpdate.simps [of H t data len tree mem]
    by (simp only: c not_True_eq_False not_False_eq_True if_False if_True Let_def simp_thms)
  have "unat (offset_m t) + unat len < 2 ^ 64"
    using True by (simp add: no_olen_add_nat)
  then have "unat (offset_m t + len) = unat (offset_m t) + unat len"
    by (simp add: unat_add_lem [THEN iffD1])
  then have "unat (offset_m t) + unat len \<le> unat (length_m t)"
    using True by (simp add: word_less_nat_alt)
  from loop_effect [OF this lp] True show ?thesis
    by simp
qed

lemma finish_node_rel:
  "finish_node H t1 i' l' out tree_off nxt mem =
     (case finish_node H t1 i l out tree_off nxt mem of
        Inl r \<Rightarrow> Inl r
      | Inr (t2, i2, l2, rest) \<Rightarrow> Inr (t2, i', l', rest))"
  by (simp add: finish_node_def split: option.split prod.split)

lemma advance_cong:
  "initialized_m t' = initialized_m t \<Longrightarrow> next_m t' = next_m t \<Longrightarrow> level_m t' = level_m t \<Longrightarrow>
   length_m t' = length_m t \<Longrightarrow> advance t' off d = advance t off d"
  by (simp add: advance_def)

lemma loop_step_rel:
  assumes "hash_chunk t mem inp len = (NO_ERROR, d2, c)"
    and "hash_chunk t' mem inp' len' = (NO_ERROR, d2, c')"
    and "offset_m t' + c' = offset_m t + c"
    and "initialized_m t' = initialized_m t" "next_m t' = next_m t" "level_m t' = level_m t"
      "length_m t' = length_m t"
  shows "loop_step H t' inp' len' out tree_off nxt mem =
     (case loop_step H t inp len out tree_off nxt mem of
        Inl r \<Rightarrow> Inl r
      | Inr (t2, i2, l2, rest) \<Rightarrow> Inr (t2, ptr_add inp' c', len' - c', rest))"
proof -
  note ac = advance_cong [OF assms(4-7)]
  show ?thesis
  proof (cases "(offset_m t + c) mod kNodeSize \<noteq> 0 \<and> offset_m t + c \<noteq> length_m t")
    case True
    then show ?thesis
      by (simp add: loop_step_def assms(1,2,3,7) ac Let_def)
  next
    case False
    then have a: "loop_step H t inp len out tree_off nxt mem =
        finish_node H (advance t (offset_m t + c) (DigestFinal H d2 (offset_m t + c)))
          (ptr_add inp c) (len - c) out tree_off nxt mem"
      by (auto simp add: loop_step_def assms(1) Let_def)
    from False have b: "loop_step H t' inp' len' out tree_off nxt mem =
        finish_node H (advance t (offset_m t + c) (DigestFinal H d2 (offset_m t + c)))
          (ptr_add inp' c') (len' - c') out tree_off nxt mem"
      by (auto simp add: loop_step_def assms(2,3,7) ac Let_def)
    show ?thesis
      unfolding a b
      by (rule finish_node_rel)
  qed
qed

lemma loop_step_fail:
  assumes "hash_chunk t mem inp len = (rc, d2, c)" "rc \<noteq> NO_ERROR"
  shows "loop_step H t inp len out tree_off nxt mem = Inl (rc, t, mem)"
  using assms by (simp add: loop_step_def)

lemma load_Data:
  "o1 + n \<le> length bs \<Longrightarrow> load mem (Data bs o1) n = Some (take n (drop o1 bs))"
  by (simp add: load_def)

lemma hash_chunk_Data:
  assumes "o1 + unat len \<le> length bs"
  shows "hash_chunk t mem (Data bs o1) len =
     (case begin_node t of
        (rc1, d1) \<Rightarrow>
          if rc1 \<noteq> NO_ERROR then (rc1, d1, 0)
          else (NO_ERROR,
                Digest_Update d1
                  (take (unat (min len (kNodeSize - offset_m t mod kNodeSize))) (drop o1 bs)),
                min len (kNodeSize - offset_m t mod kNodeSize)))"
proof -
  have "unat (min len (kNodeSize - offset_m t mod kNodeSize)) \<le> unat len"
    by (simp add: word_le_nat_alt [symmetric])
  then have "o1 + unat (min len (kNodeSize - offset_m t mod kNodeSize)) \<le> length bs"
    using assms by simp
  then show ?thesis
    by (simp add: hash_chunk_def DigestUpdate_def Let_def load_Data split: prod.split)
qed

lemma loop_content:
  assumes "o1 + unat len \<le> length bs1" "o2 + unat len \<le> length bs2"
    and "take (unat len) (drop o1 bs1) = take (unat len) (drop o2 bs2)"
  shows "CreateUpdate_loop H t (Data bs1 o1) len out tree_off nxt mem =
         CreateUpdate_loop H t (Data bs2 o2) len out tree_off nxt mem"
  using assms
proof (induction len arbitrary: t o1 o2 out tree_off mem rule: measure_induct_rule [where f = unat])
  case (less len)
  define c where "c = min len (kNodeSize - offset_m t mod kNodeSize)"
  have cl: "unat c \<le> unat len"
    unfolding c_def by (simp add: word_le_nat_alt [symmetric])
  have sl: "take (unat c) (drop o1 bs1) = take (unat c) (drop o2 bs2)"
  proof -
    have "take (unat c) (take (unat len) (drop o1 bs1)) = take (unat c) (take (unat len) (drop o2 bs2))"
      using less.prems(3) by simp
    then show ?thesis
      using cl by (simp add: min_absorb1)
  qed
  have hc: "hash_chunk t mem (Data bs2 o2) len = hash_chunk t mem (Data bs1 o1) len"
    unfolding hash_chunk_Data [OF less.prems(1)] hash_chunk_Data [OF less.prems(2)]
    by (simp only: sl [unfolded c_def])
  show ?case
  proof (cases "len = 0")
    case True
    then show ?thesis
      by (simp add: loop_unfold [of H t _ 0])
  next
    case nz: False
    obtain rc d2 c0 where h1: "hash_chunk t mem (Data bs1 o1) len = (rc, d2, c0)"
      by (cases "hash_chunk t mem (Data bs1 o1) len")
    show ?thesis
    proof (cases "rc = NO_ERROR")
      case False
      then show ?thesis
        using nz loop_step_fail [OF h1 False] loop_step_fail [OF h1 [folded hc] False]
        by (simp add: loop_unfold [of H t _ len])
    next
      case True
      have c0: "c0 = c"
        using hash_chunk_chunk [OF h1 [unfolded True]] by (simp add: c_def)
      note h1' = h1 [unfolded True c0]
      note rel = loop_step_rel [OF h1' h1' [folded hc], of H out tree_off nxt, OF refl refl refl refl refl]
      show ?thesis
      proof (cases "loop_step H t (Data bs1 o1) len out tree_off nxt mem")
        case (Inl r)
        then show ?thesis
          using nz rel by (simp add: loop_unfold [of H t _ len])
      next
        case (Inr x)
        obtain t2 i2 l2 out2 tree_off2 mem3 where x: "x = (t2, i2, l2, out2, tree_off2, mem3)"
          by (cases x)
        note f = loop_step_Inr [OF Inr [unfolded x], folded c_def]
        have s2: "loop_step H t (Data bs2 o2) len out tree_off nxt mem =
            Inr (t2, Data bs2 (o2 + unat c), len - c, out2, tree_off2, mem3)"
          using rel Inr x by (simp add: ptr_add_def)
        have i2: "i2 = Data bs1 (o1 + unat c)"
          using f(5) by (simp add: ptr_add_def)
        have dec: "unat (len - c) < unat len"
          using chunk_decreases [OF nz, of "offset_m t"] by (simp add: c_def)
        have ul: "unat (len - c) = unat len - unat c"
          using cl by (simp add: unat_sub word_le_nat_alt)
        have p1: "o1 + unat c + unat (len - c) \<le> length bs1"
          using less.prems(1) cl ul by simp
        have p2: "o2 + unat c + unat (len - c) \<le> length bs2"
          using less.prems(2) cl ul by simp
        have p3: "take (unat (len - c)) (drop (o1 + unat c) bs1) = take (unat (len - c)) (drop (o2 + unat c) bs2)"
        proof -
          have "drop (unat c) (take (unat len) (drop o1 bs1)) = drop (unat c) (take (unat len) (drop o2 bs2))"
            using less.prems(3) by simp
          then show ?thesis
            unfolding ul by (simp add: drop_take add.commute)
        qed
        show ?thesis
          using nz Inr x s2 less.IH [OF dec p1 p2 p3] f(6) i2
          by (simp add: loop_unfold [of H t _ len])
      qed
    qed
  qed
qed

lemma Digest_Update_append:
  "Digest_Update (Digest_Update d s1) s2 = Digest_Update d (s1 @ s2)"
  by (simp add: Digest_Update_def)

lemma CreateUpdate_eq_loop:
  assumes "initialized_m t" "unat (offset_m t) + unat len \<le> unat (length_m t)"
    and "data \<noteq> nullptr" "\<not> (tree = nullptr \<and> kNodeSize < length_m t)"
  shows "CreateUpdate H t data len tree mem =
         CreateUpdate_loop H t data len
           (ptr_add tree ((offset_m t - (offset_m t mod kNodeSize)) div kDigestsPerNode))
           ((offset_m t - (offset_m t mod kNodeSize)) div kDigestsPerNode)
           (ptr_add tree (NextAligned (length_m t))) mem"
proof (cases "len = 0")
  case True
  then show ?thesis
    using assms(1) by (simp add: CreateUpdate.simps [of H t] loop_unfold [of H t _ 0])
next
  case False
  have lt: "unat (length_m t) < 2 ^ 64"
    using unsigned_less [of "length_m t", where 'a = nat] by simp
  then have no: "unat (offset_m t) + unat len < 2 ^ 64"
    using assms(2) by simp
  then have a: "offset_m t \<le> offset_m t + len"
    by (simp add: no_olen_add_nat)
  have "unat (offset_m t + len) = unat (offset_m t) + unat len"
    using no by (simp add: unat_add_lem [THEN iffD1])
  then have b: "\<not> length_m t < offset_m t + len"
    using assms(2) by (simp add: word_less_nat_alt)
  show ?thesis
    unfolding CreateUpdate.simps [of H t data len tree mem]
    by (simp only: a b False assms(1,3,4) not_True_eq_False not_False_eq_True if_False if_True
        Let_def simp_thms)
qed

lemma begin_node_inner:
  "offset_m t mod kNodeSize \<noteq> 0 \<Longrightarrow> begin_node t = (NO_ERROR, digest_m t)"
  by (simp add: begin_node_def)

lemma begin_node_NO_ERROR:
  "begin_node t = (rc, d) \<Longrightarrow> rc \<noteq> NO_ERROR \<Longrightarrow> rc = ASSERT_FAILED"
  by (auto simp: begin_node_def DigestInit_def Let_def split: if_splits)

text \<open>word facts in the situation of a split\<close>

lemma split_words:
  fixes off a b len :: size_t
  assumes "unat off + unat a + unat b \<le> unat len"
  shows "unat (a + b) = unat a + unat b"
    and "unat (off + a) = unat off + unat a"
    and "unat (off + a) + unat b \<le> unat len"
proof -
  have lt: "unat len < 2 ^ 64"
    using unsigned_less [of len, where 'a = nat] by simp
  show "unat (a + b) = unat a + unat b"
    using assms lt by (simp add: unat_add_lem [THEN iffD1])
  show "unat (off + a) = unat off + unat a"
    using assms lt by (simp add: unat_add_lem [THEN iffD1])
  then show "unat (off + a) + unat b \<le> unat len"
    using assms by simp
qed

lemma split_inner_words:
  fixes off a b len :: size_t
  assumes "unat off + unat a + unat b \<le> unat len"
    and "unat a < 8192 - unat off mod 8192"
  shows "min a (kNodeSize - off mod kNodeSize) = a"
    and "a \<noteq> 0 \<Longrightarrow> (off + a) mod kNodeSize \<noteq> 0"
    and "(off + a) - (off + a) mod kNodeSize = off - off mod kNodeSize"
    and "min (a + b) (kNodeSize - off mod kNodeSize) =
         a + min b (kNodeSize - (off + a) mod kNodeSize)"
    and "unat (min (a + b) (kNodeSize - off mod kNodeSize)) =
         unat a + unat (min b (kNodeSize - (off + a) mod kNodeSize))"
proof -
  note sw = split_words [OF assms(1)]
  have m: "unat ((off + a) mod kNodeSize) = unat off mod 8192 + unat a"
    unfolding unat_mod_node sw(2) using nat_inner [OF assms(2)] .
  show "min a (kNodeSize - off mod kNodeSize) = a"
    using assms(2) by (simp add: word_unat_eq_iff unat_chunk)
  show "(off + a) mod kNodeSize \<noteq> 0" if "a \<noteq> 0"
  proof -
    have "0 < unat a" using that by (simp add: unat_gt_0)
    then have "unat ((off + a) mod kNodeSize) \<noteq> 0" unfolding m by simp
    then show ?thesis by (simp add: unat_eq_zero)
  qed
  have le1: "(off + a) mod kNodeSize \<le> off + a"
    by (simp add: word_le_nat_alt unat_mod_node)
  have le2: "off mod kNodeSize \<le> off"
    by (simp add: word_le_nat_alt unat_mod_node)
  have "unat ((off + a) - (off + a) mod kNodeSize) = unat (off - off mod kNodeSize)"
    unfolding unat_sub [OF le1] unat_sub [OF le2] sw(2) unat_mod_node
    using nat_inner [OF assms(2)] by simp
  then show "(off + a) - (off + a) mod kNodeSize = off - off mod kNodeSize"
    by (simp add: word_unat_eq_iff)
  have c: "unat (min b (kNodeSize - (off + a) mod kNodeSize)) =
      min (unat b) (8192 - (unat off mod 8192 + unat a))"
    unfolding unat_chunk sw(2) using nat_inner [OF assms(2)] by simp
  have c': "unat (min (a + b) (kNodeSize - off mod kNodeSize)) =
      min (unat a + unat b) (8192 - unat off mod 8192)"
    by (simp add: unat_chunk sw(1))
  have e: "unat (min (a + b) (kNodeSize - off mod kNodeSize)) =
      unat a + unat (min b (kNodeSize - (off + a) mod kNodeSize))"
  proof -
    define r where "r = unat off mod 8192"
    have "min (unat a + unat b) (8192 - r) = unat a + min (unat b) (8192 - (r + unat a))"
      using assms(2) unfolding r_def [symmetric] by linarith
    then show ?thesis
      unfolding c c' r_def .
  qed
  then show "unat (min (a + b) (kNodeSize - off mod kNodeSize)) =
         unat a + unat (min b (kNodeSize - (off + a) mod kNodeSize))" .
  have "unat a + unat (min b (kNodeSize - (off + a) mod kNodeSize)) < 2 ^ 64"
    using e [symmetric] unsigned_less [of "min (a + b) (kNodeSize - off mod kNodeSize)", where 'a = nat]
    by simp
  then have "unat (a + min b (kNodeSize - (off + a) mod kNodeSize)) =
      unat a + unat (min b (kNodeSize - (off + a) mod kNodeSize))"
    by (simp add: unat_add_lem [THEN iffD1])
  then show "min (a + b) (kNodeSize - off mod kNodeSize) =
         a + min b (kNodeSize - (off + a) mod kNodeSize)"
    using e by (simp add: word_unat_eq_iff)
qed


lemma split_aligned_words:
  fixes off a b len :: size_t
  assumes "unat off + unat a + unat b \<le> unat len"
    and "8192 - unat off mod 8192 \<le> unat a"
  defines "c \<equiv> min a (kNodeSize - off mod kNodeSize)"
  shows "min (a + b) (kNodeSize - off mod kNodeSize) = c"
    and "unat c = 8192 - unat off mod 8192"
    and "(off + c) mod kNodeSize = 0"
    and "((off + c) - (off + c) mod kNodeSize) div kDigestsPerNode =
         (off - off mod kNodeSize) div kDigestsPerNode + kLength"
    and "(a + b) - c = (a - c) + b"
    and "unat (off + c) = unat off + unat c"
    and "unat (a - c) = unat a - unat c"
    and "unat ((off - off mod kNodeSize) div kDigestsPerNode + kLength) =
         unat ((off - off mod kNodeSize) div kDigestsPerNode) + 32"
proof -
  note sw = split_words [OF assms(1)]
  have lt: "unat len < 2 ^ 64"
    using unsigned_less [of len, where 'a = nat] by simp
  show uc: "unat c = 8192 - unat off mod 8192"
    unfolding c_def unat_chunk using assms(2) by simp
  have "unat (min (a + b) (kNodeSize - off mod kNodeSize)) = unat c"
    unfolding uc unat_chunk sw(1) using assms(2) by simp
  then show "min (a + b) (kNodeSize - off mod kNodeSize) = c"
    by (simp add: word_unat_eq_iff)
  have no: "unat off + unat c < 2 ^ 64"
    using assms lt uc by simp
  show ua: "unat (off + c) = unat off + unat c"
    using no by (simp add: unat_add_lem [THEN iffD1])
  have "unat ((off + c) mod kNodeSize) = 0"
    unfolding unat_mod_node ua uc by (rule nat_room_aligned)
  then show al: "(off + c) mod kNodeSize = 0"
    by (simp add: unat_eq_zero)
  have cle: "c \<le> a"
    unfolding c_def by simp
  show "unat (a - c) = unat a - unat c"
    using cle by (simp add: unat_sub)
  show "(a + b) - c = (a - c) + b"
    by simp
  have le2: "off mod kNodeSize \<le> off"
    by (simp add: word_le_nat_alt unat_mod_node)
  have t0: "unat ((off - off mod kNodeSize) div kDigestsPerNode) =
      (unat off - unat off mod 8192) div 256"
    by (simp add: kDigestsPerNode_eq unat_div unat_sub [OF le2] unat_mod_node)
  have "(unat off - unat off mod 8192) div 256 + 32 < 2 ^ 64"
    using unsigned_less [of off, where 'a = nat] by simp
  then show t1: "unat ((off - off mod kNodeSize) div kDigestsPerNode + kLength) =
         unat ((off - off mod kNodeSize) div kDigestsPerNode) + 32"
    unfolding t0 [symmetric] by (simp add: unat_add_lem [THEN iffD1] kLength_def)
  obtain q r where x: "unat off = 8192 * q + r" "r < 8192" "unat off mod 8192 = r"
    by (rule nat_split_node)
  have "unat (((off + c) - (off + c) mod kNodeSize) div kDigestsPerNode) =
      (unat off + (8192 - unat off mod 8192)) div 256"
    unfolding al by (simp add: kDigestsPerNode_eq unat_div ua uc)
  also have "\<dots> = (8192 * (q + 1)) div 256"
    unfolding x(3) using x(1,2) by simp
  also have "\<dots> = (unat off - unat off mod 8192) div 256 + 32"
    unfolding x(3) using x(1,2) by simp
  finally show "((off + c) - (off + c) mod kNodeSize) div kDigestsPerNode =
         (off - off mod kNodeSize) div kDigestsPerNode + kLength"
    unfolding t0 [symmetric] t1 [symmetric] by (simp add: word_unat_eq_iff)
qed

lemma ptr_add_add:
  "p \<noteq> nullptr \<Longrightarrow> unat (x + y) = unat x + unat y \<Longrightarrow>
   ptr_add (ptr_add p x) y = ptr_add p (x + y)"
  by (cases p) (simp_all add: ptr_add_def)

lemma advance_advance [simp]: "advance (advance t off d) off' d' = advance t off' d'"
  by (simp add: advance_def)

lemma loop_split:
  assumes "initialized_m t"
    and "unat (offset_m t) + unat a + unat b \<le> unat (length_m t)"
    and "o1 + unat a + unat b \<le> length bs"
    and "tree_off = (offset_m t - offset_m t mod kNodeSize) div kDigestsPerNode"
    and "out = ptr_add tree tree_off"
    and "nxt = ptr_add tree (NextAligned (length_m t))"
    and "\<not> (tree = nullptr \<and> kNodeSize < length_m t)"
  shows "CreateUpdate_loop H t (Data bs o1) (a + b) out tree_off nxt mem =
     (case CreateUpdate_loop H t (Data bs o1) a out tree_off nxt mem of
        (rc, t', mem') \<Rightarrow>
          if rc \<noteq> NO_ERROR then (rc, t', mem')
          else CreateUpdate H t' (Data bs (o1 + unat a)) b tree mem')"
  using assms
proof (induction a arbitrary: t o1 out tree_off mem rule: measure_induct_rule [where f = unat])
  case (less a)
  note init = less.prems(1) and rng = less.prems(2) and buf = less.prems(3)
    and toff = less.prems(4) and out = less.prems(5) and nxt = less.prems(6) and tr = less.prems(7)
  note sw = split_words [OF rng]
  have rng_b: "unat (offset_m t) + unat b \<le> unat (length_m t)"
    using rng by simp
  have rng_a: "unat (offset_m t) + unat a \<le> unat (length_m t)"
    using rng by simp
  show ?case
  proof (cases "a = 0")
    case True
    have "CreateUpdate H t (Data bs o1) b tree mem =
        CreateUpdate_loop H t (Data bs o1) b out tree_off nxt mem"
      unfolding out nxt toff by (rule CreateUpdate_eq_loop [OF init rng_b _ tr]) simp
    then show ?thesis
      using True by (simp add: loop_unfold [of H t _ 0])
  next
    case anz: False
    then have apos: "0 < unat a"
      by (simp add: unat_gt_0)
    show ?thesis
    proof (cases "b = 0")
      case True
      obtain rc t' mem' where la: "CreateUpdate_loop H t (Data bs o1) a out tree_off nxt mem = (rc, t', mem')"
        by (cases "CreateUpdate_loop H t (Data bs o1) a out tree_off nxt mem")
      have "initialized_m t'"
        using loop_effect [OF rng_a la] init by simp
      then show ?thesis
        using True la by (simp add: CreateUpdate_zero)
    next
      case bnz: False
      then have bpos: "0 < unat b"
        by (simp add: unat_gt_0)
      have abnz: "a + b \<noteq> 0"
        using sw(1) apos by (metis add_is_0 less_numeral_extra(3) unat_eq_zero)
      have buf_a: "o1 + unat a \<le> length bs" and buf_ab: "o1 + unat (a + b) \<le> length bs"
        using buf sw(1) by simp_all
      obtain rc1 d1 where bn: "begin_node t = (rc1, d1)"
        by (cases "begin_node t")
      show ?thesis
      proof (cases "rc1 = NO_ERROR")
        case False
        have "hash_chunk t mem (Data bs o1) a = (rc1, d1, 0)"
          "hash_chunk t mem (Data bs o1) (a + b) = (rc1, d1, 0)"
          using False by (simp_all add: hash_chunk_Data [OF buf_a] hash_chunk_Data [OF buf_ab] bn)
        then have "loop_step H t (Data bs o1) a out tree_off nxt mem = Inl (rc1, t, mem)"
          "loop_step H t (Data bs o1) (a + b) out tree_off nxt mem = Inl (rc1, t, mem)"
          using False loop_step_fail by blast+
        then show ?thesis
          using anz abnz False
          by (simp add: loop_unfold [of H t _ a] loop_unfold [of H t _ "a + b"])
      next
        case ok: True
        define c_ab where "c_ab = min (a + b) (kNodeSize - offset_m t mod kNodeSize)"
        have hc_ab: "hash_chunk t mem (Data bs o1) (a + b) =
            (NO_ERROR, Digest_Update d1 (take (unat c_ab) (drop o1 bs)), c_ab)"
          using ok by (simp add: hash_chunk_Data [OF buf_ab] bn c_ab_def)
        show ?thesis
        proof (cases "unat a < 8192 - unat (offset_m t) mod 8192")
          case inner: True
          note siw = split_inner_words [OF rng inner]
          define d2a where "d2a = Digest_Update d1 (take (unat a) (drop o1 bs))"
          define t_a where "t_a = advance t (offset_m t + a) d2a"
          define c_b where "c_b = min b (kNodeSize - (offset_m t + a) mod kNodeSize)"
          have cw: "c_ab = a + c_b"
            unfolding c_ab_def c_b_def by (rule siw(4))
          have cu: "unat c_ab = unat a + unat c_b"
            unfolding c_ab_def c_b_def by (rule siw(5))
          have hc_a: "hash_chunk t mem (Data bs o1) a = (NO_ERROR, d2a, a)"
            using ok by (simp add: hash_chunk_Data [OF buf_a] bn siw(1) d2a_def)
          have ne: "offset_m t + a \<noteq> length_m t"
            using sw(2) rng bpos by (metis add_diff_cancel_left' diff_is_0_eq' less_numeral_extra(3) add.assoc)
          have mid: "(offset_m t + a) mod kNodeSize \<noteq> 0 \<and> offset_m t + a \<noteq> length_m t"
            using siw(2) [OF anz] ne by simp
          have "loop_step H t (Data bs o1) a out tree_off nxt mem = Inl (NO_ERROR, t_a, mem)"
            using mid by (simp add: loop_step_def hc_a Let_def t_a_def)
          then have la: "CreateUpdate_loop H t (Data bs o1) a out tree_off nxt mem = (NO_ERROR, t_a, mem)"
            using anz by (simp add: loop_unfold [of H t _ a])
          have ta: "initialized_m t_a" "offset_m t_a = offset_m t + a" "length_m t_a = length_m t"
            "digest_m t_a = d2a" "next_m t_a = next_m t" "level_m t_a = level_m t"
            using init by (simp_all add: t_a_def)
          have rb: "CreateUpdate H t_a (Data bs (o1 + unat a)) b tree mem =
              CreateUpdate_loop H t_a (Data bs (o1 + unat a)) b out tree_off nxt mem"
            unfolding out nxt toff siw(3) [symmetric] ta(2) [symmetric] ta(3) [symmetric]
            apply (rule CreateUpdate_eq_loop [OF ta(1)])
            using sw(3) tr by (simp_all add: ta)
          have buf_b: "o1 + unat a + unat b \<le> length bs"
            using buf by simp
          have hc_b: "hash_chunk t_a mem (Data bs (o1 + unat a)) b =
              (NO_ERROR, Digest_Update d1 (take (unat c_ab) (drop o1 bs)), c_b)"
          proof -
            have "take (unat c_ab) (drop o1 bs) =
                take (unat a) (drop o1 bs) @ take (unat c_b) (drop (o1 + unat a) bs)"
              unfolding cu by (simp add: take_add add.commute)
            then show ?thesis
              using mid
              by (simp add: hash_chunk_Data [OF buf_b] begin_node_inner ta c_b_def [symmetric] d2a_def
                  Digest_Update_append)
          qed
          have oe: "offset_m t_a + c_b = offset_m t + c_ab"
            unfolding ta(2) cw by simp
          note rel = loop_step_rel [OF hc_ab hc_b oe, of H out tree_off nxt]
          have steps: "loop_step H t_a (Data bs (o1 + unat a)) b out tree_off nxt mem =
              loop_step H t (Data bs o1) (a + b) out tree_off nxt mem"
          proof (cases "loop_step H t (Data bs o1) (a + b) out tree_off nxt mem")
            case (Inl r)
            then show ?thesis
              using rel init by (simp add: ta)
          next
            case (Inr x)
            obtain t2 i2 l2 out2 tree_off2 mem3 where x: "x = (t2, i2, l2, out2, tree_off2, mem3)"
              by (cases x)
            note f = loop_step_Inr [OF Inr [unfolded x], folded c_ab_def]
            have "ptr_add (Data bs (o1 + unat a)) c_b = i2"
              unfolding f(5) by (simp add: ptr_add_def cu)
            moreover have "b - c_b = l2"
              unfolding f(6) cw by simp
            ultimately show ?thesis
              using rel Inr x init by (simp add: ta)
          qed
          have "CreateUpdate_loop H t (Data bs o1) (a + b) out tree_off nxt mem =
              CreateUpdate_loop H t_a (Data bs (o1 + unat a)) b out tree_off nxt mem"
            using abnz bnz steps
            by (simp add: loop_unfold [of H t _ "a + b"] loop_unfold [of H t_a _ b])
          then show ?thesis
            using la rb by simp
        next
          case False
          then have aligned: "8192 - unat (offset_m t) mod 8192 \<le> unat a"
            by simp
          define c where "c = min a (kNodeSize - offset_m t mod kNodeSize)"
          note saw = split_aligned_words [OF rng aligned, folded c_def]
          have hc_a: "hash_chunk t mem (Data bs o1) a =
              (NO_ERROR, Digest_Update d1 (take (unat c) (drop o1 bs)), c)"
            using ok by (simp add: hash_chunk_Data [OF buf_a] bn c_def)
          have hc_ab': "hash_chunk t mem (Data bs o1) (a + b) =
              (NO_ERROR, Digest_Update d1 (take (unat c) (drop o1 bs)), c)"
            using hc_ab unfolding c_ab_def saw(1) .
          note rel = loop_step_rel [OF hc_a hc_ab', of H out tree_off nxt, OF refl refl refl refl refl]
          show ?thesis
          proof (cases "loop_step H t (Data bs o1) a out tree_off nxt mem")
            case (Inl r)
            obtain rc t' mem' where r: "r = (rc, t', mem')"
              by (cases r)
            note f = loop_step_Inl [OF Inl [unfolded r], folded c_def]
            have la: "CreateUpdate_loop H t (Data bs o1) a out tree_off nxt mem = (rc, t', mem')"
              using anz Inl r by (simp add: loop_unfold [of H t _ a])
            have lab: "CreateUpdate_loop H t (Data bs o1) (a + b) out tree_off nxt mem = (rc, t', mem')"
              using abnz Inl r rel by (simp add: loop_unfold [of H t _ "a + b"])
            have "rc \<noteq> NO_ERROR"
            proof
              assume rc: "rc = NO_ERROR"
              from f(6) [OF rc] saw(3) have "length_m t \<le> kNodeSize"
                by simp
              then have "unat (length_m t) \<le> 8192"
                by (simp add: word_le_nat_alt)
              moreover have "unat (offset_m t) mod 8192 \<le> unat (offset_m t)"
                by simp
              ultimately show False
                using rng aligned bpos by linarith
            qed
            then show ?thesis
              using la lab by simp
          next
            case (Inr x)
            obtain t2 i2 l2 out2 tree_off2 mem3 where x: "x = (t2, i2, l2, out2, tree_off2, mem3)"
              by (cases x)
            note f = loop_step_Inr [OF Inr [unfolded x], folded c_def]
            have la: "CreateUpdate_loop H t (Data bs o1) a out tree_off nxt mem =
                CreateUpdate_loop H t2 i2 (a - c) out2 tree_off2 nxt mem3"
              using anz Inr x f(6) by (simp add: loop_unfold [of H t _ a])
            have lab: "CreateUpdate_loop H t (Data bs o1) (a + b) out tree_off nxt mem =
                CreateUpdate_loop H t2 i2 ((a - c) + b) out2 tree_off2 nxt mem3"
              using abnz Inr x rel f(5) saw(5)
              by (simp add: loop_unfold [of H t _ "a + b"])
            have i2: "i2 = Data bs (o1 + unat c)"
              using f(5) by (simp add: ptr_add_def)
            have cpos: "0 < unat c"
              unfolding saw(2) by simp
            have cle: "unat c \<le> unat a"
              unfolding saw(2) using aligned .
            have dec: "unat (a - c) < unat a"
              unfolding saw(7) using cpos apos by simp
            have p1: "initialized_m t2"
              using f(1) init by simp
            have p2: "unat (offset_m t2) + unat (a - c) + unat b \<le> unat (length_m t2)"
              unfolding f(3,4) saw(6,7) using rng cle by simp
            have p3: "o1 + unat c + unat (a - c) + unat b \<le> length bs"
              unfolding saw(7) using buf cle by simp
            have p4: "tree_off2 = (offset_m t2 - offset_m t2 mod kNodeSize) div kDigestsPerNode"
              unfolding f(4,8) saw(4) toff ..
            have tn: "tree \<noteq> nullptr"
              using tr f(9) by blast
            have kl: "unat ((offset_m t - offset_m t mod kNodeSize) div kDigestsPerNode + kLength) =
                unat ((offset_m t - offset_m t mod kNodeSize) div kDigestsPerNode) + unat kLength"
              unfolding saw(8) by (simp add: kLength_def)
            have p5: "out2 = ptr_add tree tree_off2"
              unfolding f(7,8) out toff
              by (rule ptr_add_add [OF tn kl])
            have p6: "nxt = ptr_add tree (NextAligned (length_m t2))"
              unfolding f(3) nxt ..
            have p7: "\<not> (tree = nullptr \<and> kNodeSize < length_m t2)"
              using tn by simp
            have e: "o1 + unat c + unat (a - c) = o1 + unat a"
              unfolding saw(7) using cle by simp
            show ?thesis
              unfolding la lab i2
              using less.IH [OF dec p1 p2 p3 p4 p5 p6 p7] unfolding e .
          qed
        qed
      qed
    qed
  qed
qed

lemma CreateUpdate_split:
  assumes init: "initialized_m t"
    and rng: "unat (offset_m t) + unat a + unat b \<le> unat (length_m t)"
    and buf: "o1 + unat a + unat b \<le> length bs"
  shows "CreateUpdate H t (Data bs o1) (a + b) tree mem =
     (case CreateUpdate H t (Data bs o1) a tree mem of
        (rc, t', mem') \<Rightarrow>
          if rc \<noteq> NO_ERROR then (rc, t', mem')
          else CreateUpdate H t' (Data bs (o1 + unat a)) b tree mem')"
proof (cases "tree = nullptr \<and> kNodeSize < length_m t")
  case True
  note sw = split_words [OF rng]
  show ?thesis
  proof (cases "a = 0")
    case a0: True
    then show ?thesis
      using init by (simp add: CreateUpdate_zero)
  next
    case False
    then have "0 < unat a"
      by (simp add: unat_gt_0)
    then have abnz: "a + b \<noteq> 0"
      using sw(1) by (metis add_is_0 less_numeral_extra(3) unat_eq_zero)
    have r1: "unat (offset_m t + a) = unat (offset_m t) + unat a"
      by (rule sw(2))
    have "unat (offset_m t) + unat (a + b) \<le> unat (length_m t)"
      using rng sw(1) by simp
    then have r2: "unat (offset_m t + (a + b)) = unat (offset_m t) + unat (a + b)"
      using split_words(2) [of "offset_m t" "a + b" 0 "length_m t"] by simp
    have l1: "offset_m t \<le> offset_m t + a" "\<not> length_m t < offset_m t + a"
      using rng by (simp_all add: word_le_nat_alt word_less_nat_alt r1)
    have l2: "offset_m t \<le> offset_m t + (a + b)" "\<not> length_m t < offset_m t + (a + b)"
      using rng sw(1) by (simp_all add: word_le_nat_alt word_less_nat_alt r2)
    have "CreateUpdate H t (Data bs o1) a tree mem = (ERR_INVALID_ARGS, t, mem)"
      using True init False l1 by (simp add: CreateUpdate.simps [of H t])
    moreover have "CreateUpdate H t (Data bs o1) (a + b) tree mem = (ERR_INVALID_ARGS, t, mem)"
      using True init abnz l2 by (simp add: CreateUpdate.simps [of H t])
    ultimately show ?thesis
      by simp
  qed
next
  case False
  note sw = split_words [OF rng]
  have rng_a: "unat (offset_m t) + unat a \<le> unat (length_m t)"
    using rng by simp
  have rng_ab: "unat (offset_m t) + unat (a + b) \<le> unat (length_m t)"
    using rng sw(1) by simp
  have dn: "Data bs o1 \<noteq> nullptr"
    by simp
  show ?thesis
    unfolding CreateUpdate_eq_loop [OF init rng_a dn False] CreateUpdate_eq_loop [OF init rng_ab dn False]
    by (rule loop_split [OF init rng buf refl refl refl False])
qed

lemma CreateUpdate_content:
  assumes "o1 + unat len \<le> length bs1" "o2 + unat len \<le> length bs2"
    and "take (unat len) (drop o1 bs1) = take (unat len) (drop o2 bs2)"
  shows "CreateUpdate H t (Data bs1 o1) len tree mem = CreateUpdate H t (Data bs2 o2) len tree mem"
  unfolding CreateUpdate.simps [of H t "Data bs1 o1"] CreateUpdate.simps [of H t "Data bs2 o2"]
  by (simp add: loop_content [OF assms] Let_def)

lemma CreateInit_effect:
  assumes "CreateInit heap t data_len tree_len = (rc, t', heap')"
  shows "initialized_m t' \<and> offset_m t' = 0 \<and> length_m t' = data_len"
  using assms
  apply (subst (asm) CreateInit.simps)
  apply (auto simp: Let_def set_next_def split: if_splits nat.splits prod.splits)
  done

lemma CreateUpdates_concat:
  assumes "initialized_m t" "unat (offset_m t) + length (concat cs) \<le> unat (length_m t)"
  shows "CreateUpdates H t cs tree mem =
         CreateUpdate H t (Data (concat cs) 0) (of_nat (length (concat cs))) tree mem"
  using assms
proof (induction cs arbitrary: t mem)
  case Nil
  then show ?case
    by (simp add: CreateUpdate_zero)
next
  case (Cons c cs)
  define a :: size_t where "a = of_nat (length c)"
  define b :: size_t where "b = of_nat (length (concat cs))"
  define bs where "bs = c @ concat cs"
  have lt: "unat (length_m t) < 2 ^ 64"
    using unsigned_less [of "length_m t", where 'a = nat] by simp
  have ua: "unat a = length c"
    unfolding a_def using Cons.prems(2) lt by (simp add: unat_of_nat)
  have ub: "unat b = length (concat cs)"
    unfolding b_def using Cons.prems(2) lt by (simp add: unat_of_nat)
  have ab: "of_nat (length (concat (c # cs))) = a + b"
    by (simp add: a_def b_def)
  have rng: "unat (offset_m t) + unat a + unat b \<le> unat (length_m t)"
    using Cons.prems(2) by (simp add: ua ub)
  have buf: "0 + unat a + unat b \<le> length bs"
    by (simp add: ua ub bs_def)
  note sp = CreateUpdate_split [OF Cons.prems(1) rng buf, of H tree mem]
  have c1: "CreateUpdate H t (Data bs 0) a tree mem = CreateUpdate H t (Data c 0) a tree mem"
    by (rule CreateUpdate_content) (simp_all add: ua bs_def)
  obtain rc t' mem' where r: "CreateUpdate H t (Data c 0) a tree mem = (rc, t', mem')"
    by (cases "CreateUpdate H t (Data c 0) a tree mem")
  show ?case
  proof (cases "rc = NO_ERROR")
    case False
    then show ?thesis
      using sp c1 r by (simp add: ab a_def [symmetric] b_def [symmetric] bs_def)
  next
    case True
    note e = CreateUpdate_effect [OF r]
    have i': "initialized_m t'"
      using e Cons.prems(1) by simp
    have r': "unat (offset_m t') + length (concat cs) \<le> unat (length_m t')"
      using e True split_words(2) [OF rng] rng ua ub by simp
    have c2: "CreateUpdate H t' (Data bs (0 + unat a)) b tree mem' =
        CreateUpdate H t' (Data (concat cs) 0) b tree mem'"
      by (rule CreateUpdate_content) (simp_all add: ua ub bs_def)
    show ?thesis
      using sp c1 r True c2 Cons.IH [OF i' r', of mem']
      by (simp add: ab a_def [symmetric] b_def [symmetric] bs_def)
  qed
qed


lemma CreateChunked_Create:
  assumes "concat cs = bs" "length bs < 2 ^ 64"
  shows "CreateChunked H heap cs (of_nat (length bs)) tree tree_len digest mem =
         Create H heap (Data bs 0) (of_nat (length bs)) tree tree_len digest mem"
proof -
  obtain rc mt1 heap' where ci: "CreateInit heap Tree_new (of_nat (length bs)) tree_len = (rc, mt1, heap')"
    by (cases "CreateInit heap Tree_new (of_nat (length bs)) tree_len")
  note e = CreateInit_effect [OF ci]
  have "unat (length_m mt1) = length bs"
    using e assms(2) by (simp add: unat_of_nat)
  then have "unat (offset_m mt1) + length (concat cs) \<le> unat (length_m mt1)"
    using e assms(1) by simp
  then have "CreateUpdates H mt1 cs tree mem =
      CreateUpdate H mt1 (Data bs 0) (of_nat (length bs)) tree mem"
    using CreateUpdates_concat [of mt1 cs H tree mem] e assms(1) by simp
  then show ?thesis
    by (simp add: CreateChunked_def Create_def ci)
qed

lemma CreateFinal_bad_state:
  assumes "\<not> initialized_m t \<or> (level_m t = 0 \<and> offset_m t \<noteq> length_m t)"
  shows "CreateFinal H t tree root mem = (ERR_BAD_STATE, t, mem, root)"
  unfolding CreateFinal_def
  apply (subst CreateFinalInternal.simps)
  using assms apply simp
  done

lemma CreateFinal_invalid_args:
  assumes "initialized_m t" "\<not> (level_m t = 0 \<and> offset_m t \<noteq> length_m t)"
    and "root = None \<or> (tree = nullptr \<and> kNodeSize < length_m t)"
  shows "CreateFinal H t tree root mem = (ERR_INVALID_ARGS, t, mem, root)"
  unfolding CreateFinal_def
  apply (subst CreateFinalInternal.simps)
  using assms apply simp
  done

lemma CreateInit_level:
  assumes "CreateInit heap t data_len tree_len = (rc, t', heap')"
  shows "level_m t' = level_m t"
  using assms
  apply (subst (asm) CreateInit.simps)
  apply (auto simp: Let_def set_next_def split: if_splits nat.splits prod.splits)
  done

lemma CreateUpdates_append:
  "CreateUpdates H t (cs1 @ cs2) tree mem =
     (case CreateUpdates H t cs1 tree mem of
        (rc, t', mem') \<Rightarrow>
          if rc \<noteq> NO_ERROR then (rc, t', mem') else CreateUpdates H t' cs2 tree mem')"
  by (induction cs1 arbitrary: t mem) (simp_all split: prod.split)

lemma CreateUpdates_effect:
  assumes "initialized_m t" "unat (offset_m t) + length (concat cs) \<le> unat (length_m t)"
    and "CreateUpdates H t cs tree mem = (NO_ERROR, t', mem')"
  shows "initialized_m t' \<and> level_m t' = level_m t \<and> length_m t' = length_m t \<and>
         unat (offset_m t') = unat (offset_m t) + length (concat cs)"
proof -
  have r: "CreateUpdate H t (Data (concat cs) 0) (of_nat (length (concat cs))) tree mem = (NO_ERROR, t', mem')"
    using CreateUpdates_concat [OF assms(1,2)] assms(3) by simp
  note e = CreateUpdate_effect [OF r]
  have lt: "unat (length_m t) < 2 ^ 64"
    using unsigned_less [of "length_m t", where 'a = nat] by simp
  have u: "unat (of_nat (length (concat cs)) :: size_t) = length (concat cs)"
    using assms(2) lt by (simp add: unat_of_nat)
  have "unat (offset_m t + of_nat (length (concat cs))) = unat (offset_m t) + length (concat cs)"
    using split_words(2) [of "offset_m t" "of_nat (length (concat cs))" 0 "length_m t"] assms(2) u
    by simp
  then show ?thesis
    using e by simp
qed

lemma CreateRetried_Chunked:
  assumes cc: "concat cs1 @ concat cs2 = bs" and lb: "length bs < 2 ^ 64"
    and ref: "concat cs2 \<noteq> [] \<or> root0 = None \<or> (tree0 = nullptr \<and> kNodeSize < of_nat (length bs))"
  shows "CreateRetried H heap cs1 tree0 root0 cs2 (of_nat (length bs)) tree tree_len digest mem =
         CreateChunked H heap (cs1 @ cs2) (of_nat (length bs)) tree tree_len digest mem"
proof -
  define L :: size_t where "L = of_nat (length bs)"
  have uL: "unat L = length bs"
    using lb by (simp add: L_def unat_of_nat)
  have l1: "length (concat cs1) + length (concat cs2) = length bs"
    using cc by (metis length_append)
  obtain rc mt1 heap' where ci: "CreateInit heap Tree_new L tree_len = (rc, mt1, heap')"
    by (cases "CreateInit heap Tree_new L tree_len")
  note e = CreateInit_effect [OF ci]
  have lv: "level_m mt1 = 0"
    using CreateInit_level [OF ci] by (simp add: Tree_new_def)
  obtain rc1 mt2 m1 where u1: "CreateUpdates H mt1 cs1 tree mem = (rc1, mt2, m1)"
    by (cases "CreateUpdates H mt1 cs1 tree mem")
  have ?thesis if "rc \<noteq> NO_ERROR"
    using that by (simp add: CreateRetried_def CreateChunked_def ci L_def [symmetric])
  moreover have ?thesis if "rc = NO_ERROR" "rc1 \<noteq> NO_ERROR"
    using that
    by (simp add: CreateRetried_def CreateChunked_def ci u1 CreateUpdates_append L_def [symmetric])
  moreover have ?thesis if ok: "rc = NO_ERROR" "rc1 = NO_ERROR"
  proof -
    have r1: "unat (offset_m mt1) + length (concat cs1) \<le> unat (length_m mt1)"
      using e l1 uL by simp
    have u1': "CreateUpdates H mt1 cs1 tree mem = (NO_ERROR, mt2, m1)"
      using u1 ok by simp
    have i1: "initialized_m mt1"
      using e by simp
    note e2 = CreateUpdates_effect [OF i1 r1 u1']
    have st: "initialized_m mt2" "level_m mt2 = 0" "length_m mt2 = L"
      "unat (offset_m mt2) = length (concat cs1)"
      using e2 e lv by simp_all
    have "\<exists>rc0. CreateFinal H mt2 tree0 root0 m1 = (rc0, mt2, m1, root0)"
    proof (cases "concat cs2 = []")
      case False
      then have "0 < length (concat cs2)"
        unfolding length_greater_0_conv .
      then have "length (concat cs1) \<noteq> length bs"
        using l1 by linarith
      then have "offset_m mt2 \<noteq> length_m mt2"
        using st(3,4) uL by auto
      then have "CreateFinal H mt2 tree0 root0 m1 = (ERR_BAD_STATE, mt2, m1, root0)"
        using st(2) by (intro CreateFinal_bad_state) simp
      then show ?thesis ..
    next
      case c: True
      then have "length (concat cs2) = 0"
        unfolding length_0_conv .
      then have "length (concat cs1) = length bs"
        using l1 by linarith
      then have ol: "offset_m mt2 = length_m mt2"
        using st(3,4) uL by (simp add: word_unat_eq_iff)
      have "root0 = None \<or> (tree0 = nullptr \<and> kNodeSize < length_m mt2)"
        using ref c st(3) by (simp add: L_def)
      then have "CreateFinal H mt2 tree0 root0 m1 = (ERR_INVALID_ARGS, mt2, m1, root0)"
        using st(1) ol by (intro CreateFinal_invalid_args) simp_all
      then show ?thesis ..
    qed
    then obtain rc0 where cf: "CreateFinal H mt2 tree0 root0 m1 = (rc0, mt2, m1, root0)" ..
    show ?thesis
      using ok
      by (simp add: CreateRetried_def CreateChunked_def ci u1 cf CreateUpdates_append L_def [symmetric])
  qed
  ultimately show ?thesis
    by blast
qed


section \<open>Verification depends on the bytes it reads only\<close>

lemma load_peek:
  "load mem p n =
     (if n = 0 then Some []
      else if \<forall>i<n. peek mem p i \<noteq> None
        then Some (map (\<lambda>i. the (peek mem p i)) [0..<n]) else None)"
proof (cases "n = 0")
  case True
  then show ?thesis
    by (simp add: load_def)
next
  case False
  then have n: "0 < n"
    by simp
  have bound: "(off + n \<le> length (xs :: byte list)) = (\<forall>i<n. off + i < length xs)" for off xs
  proof
    assume "off + n \<le> length xs"
    then show "\<forall>i<n. off + i < length xs"
      by auto
  next
    assume a: "\<forall>i<n. off + i < length xs"
    have "n - 1 < n"
      using n by simp
    then have "off + (n - 1) < length xs"
      using a by blast
    then show "off + n \<le> length xs"
      using n by linarith
  qed
  have content: "take n (drop off xs) = map (\<lambda>i. xs ! (off + i)) [0..<n]"
    if "off + n \<le> length (xs :: byte list)" for off xs
    using that by (intro nth_equalityI) simp_all
  show ?thesis
  proof (cases p)
    case nullptr
    then show ?thesis
      using n by (auto simp: load_def peek_def)
  next
    case (Data bs off)
    show ?thesis
    proof (cases "off + n \<le> length bs")
      case True
      then show ?thesis
        using n Data content [OF True] bound [of off bs]
        by (simp add: load_def peek_def)
    next
      case False
      then show ?thesis
        using n Data bound [of off bs] by (auto simp: load_def peek_def)
    qed
  next
    case (TreeMem off)
    show ?thesis
    proof (cases "off + n \<le> length mem")
      case True
      then show ?thesis
        using n TreeMem content [OF True] bound [of off mem]
        by (simp add: load_def peek_def)
    next
      case False
      then show ?thesis
        using n TreeMem bound [of off mem] by (auto simp: load_def peek_def)
    qed
  qed
qed

lemma load_cong_peek:
  assumes "\<forall>i<n. peek mem1 p1 i = peek mem2 p2 i"
  shows "load mem1 p1 n = load mem2 p2 n"
proof -
  have "map (\<lambda>i. the (peek mem1 p1 i)) [0..<n] = map (\<lambda>i. the (peek mem2 p2 i)) [0..<n]"
    using assms by simp
  moreover have "(\<forall>i<n. peek mem1 p1 i \<noteq> None) = (\<forall>i<n. peek mem2 p2 i \<noteq> None)"
    using assms by simp
  ultimately show ?thesis
    unfolding load_peek [of mem1] load_peek [of mem2] by presburger
qed

lemma peek_ptr_add: "peek mem (ptr_add p k) i = peek mem p (unat k + i)"
  by (cases p) (simp_all add: peek_def ptr_add_def add.assoc)


lemma peek_TreeMem: "peek mem (TreeMem base) i = peek mem (TreeMem 0) (base + i)"
  by (simp add: peek_def)

lemma aligned_down_mod:
  fixes offset :: size_t
  shows "(offset - offset mod kNodeSize) mod kNodeSize = 0"
proof -
  have "offset mod kNodeSize \<le> offset"
    by (simp add: word_le_nat_alt unat_mod_node)
  then have "unat (offset - offset mod kNodeSize) = unat offset - unat offset mod 8192"
    by (simp add: unat_sub unat_mod_node)
  then have "unat ((offset - offset mod kNodeSize) mod kNodeSize) = 0"
    by (simp add: unat_mod_node minus_mod_eq_mult_div)
  then show ?thesis
    by (simp add: unat_eq_zero)
qed

lemma next_node_mod:
  fixes offset :: size_t
  assumes "offset mod kNodeSize = 0"
  shows "(offset + kNodeSize) mod kNodeSize = 0"
proof -
  have z: "unat offset mod 8192 = 0"
    using assms unat_mod_node [of offset] by simp
  have d: "(8192 :: nat) dvd 2 ^ 64"
    by simp
  have "unat ((offset + kNodeSize) mod kNodeSize) = ((unat offset + 8192) mod 2 ^ 64) mod 8192"
    by (simp add: unat_mod_node unat_word_ariths)
  also have "\<dots> = (unat offset + 8192) mod 8192"
    using d by (rule mod_mod_cancel)
  also have "\<dots> = 0"
    using z by simp
  finally show ?thesis
    by (simp add: unat_eq_zero)
qed

lemma full_chunk:
  fixes len :: size_t
  assumes "len - min len kNodeSize \<noteq> 0"
  shows "min len kNodeSize = kNodeSize" and "unat (len - kNodeSize) = unat len - 8192"
    and "8192 < unat len"
proof -
  have "\<not> len \<le> kNodeSize"
    using assms by (auto simp: min_def split: if_splits)
  then have l: "kNodeSize < len"
    by simp
  then show "min len kNodeSize = kNodeSize"
    by simp
  have "kNodeSize \<le> len"
    using l by simp
  then show "unat (len - kNodeSize) = unat len - 8192"
    by (simp add: unat_sub)
  show "8192 < unat len"
    using l by (simp add: word_less_nat_alt)
qed

lemma VerifyLevel_loop_cong:
  assumes "offset mod kNodeSize = 0"
    and "\<forall>i<unat len. peek mem1 inp1 i = peek mem2 inp2 i"
    and "\<forall>j<32 * ((unat len + 8191) div 8192). peek mem1 e1 j = peek mem2 e2 j"
  shows "VerifyLevel_loop H actual inp1 data_len e1 offset len level mem1 =
         VerifyLevel_loop H actual inp2 data_len e2 offset len level mem2"
  using assms
proof (induction len arbitrary: actual inp1 inp2 e1 e2 offset rule: measure_induct_rule [where f = unat])
  case (less len)
  show ?case
  proof (cases "len = 0")
    case True
    then show ?thesis
      by (simp add: VerifyLevel_loop.simps [of H actual _ data_len _ offset 0])
  next
    case False
    then have pos: "0 < unat len"
      by (simp add: unat_gt_0)
    have cl: "unat (min len kNodeSize) \<le> unat len"
      by (simp add: word_le_nat_alt [symmetric])
    have l1: "load mem1 inp1 (unat (min len kNodeSize)) = load mem2 inp2 (unat (min len kNodeSize))"
      by (rule load_cong_peek) (use less.prems(2) cl in auto)
    have "8192 div 8192 \<le> (unat len + 8191) div (8192 :: nat)"
      using pos by (intro div_le_mono) simp
    then have "32 \<le> 32 * ((unat len + 8191) div 8192)"
      by simp
    then have l2: "load mem1 e1 (unat kLength) = load mem2 e2 (unat kLength)"
      using less.prems(3) by (intro load_cong_peek) (simp add: kLength_def)
    have rec: "VerifyLevel_loop H a3 (ptr_add inp1 (min len kNodeSize)) data_len (ptr_add e1 kLength)
          (offset + min len kNodeSize) (len - min len kNodeSize) level mem1 =
        VerifyLevel_loop H a3 (ptr_add inp2 (min len kNodeSize)) data_len (ptr_add e2 kLength)
          (offset + min len kNodeSize) (len - min len kNodeSize) level mem2" for a3
    proof (cases "len - min len kNodeSize = 0")
      case True
      then show ?thesis
        by (simp add: VerifyLevel_loop.simps [of H a3 _ data_len _ _ 0])
    next
      case False
      note fc = full_chunk [OF False]
      have dec: "unat (len - kNodeSize) < unat len"
        using fc(2,3) by simp
      have m: "(offset + kNodeSize) mod kNodeSize = 0"
        using less.prems(1) by (rule next_node_mod)
      have p1: "\<forall>i<unat (len - kNodeSize). peek mem1 (ptr_add inp1 kNodeSize) i =
          peek mem2 (ptr_add inp2 kNodeSize) i"
        using less.prems(2) fc(2,3) by (simp add: peek_ptr_add)
      define m where "m = unat len - 8192 + 8191"
      have e: "unat len + 8191 = m + 8192"
        using fc(3) by (simp add: m_def)
      have "(m + 8192) div 8192 = m div 8192 + 1"
        by simp
      then have "32 + 32 * (m div 8192) = 32 * ((unat len + 8191) div 8192)"
        unfolding e by simp
      then have "32 + 32 * ((unat len - 8192 + 8191) div 8192) = 32 * ((unat len + 8191) div 8192)"
        unfolding m_def .
      then have p2: "\<forall>j<32 * ((unat (len - kNodeSize) + 8191) div 8192).
          peek mem1 (ptr_add e1 kLength) j = peek mem2 (ptr_add e2 kLength) j"
        using less.prems(3) fc(2) by (simp add: peek_ptr_add kLength_def)
      show ?thesis
        unfolding fc(1) by (rule less.IH [OF dec m p1 p2])
    qed
    have du: "DigestUpdate a1 mem1 inp1 offset len = DigestUpdate a1 mem2 inp2 offset len" for a1
      unfolding DigestUpdate_def Let_def less.prems(1) using l1 by simp
    have ch: "DigestUpdate a1 mem2 inp2 offset len = (rc2, a2, chunk) \<Longrightarrow> chunk = min len kNodeSize"
      for a1 rc2 a2 chunk
      using DigestUpdate_chunk [of a1 mem2 inp2 offset len rc2 a2 chunk] less.prems(1) by simp
    obtain rc1 a1 where di: "DigestInit actual (offset OR level) (data_len - offset) = (rc1, a1)"
      by (cases "DigestInit actual (offset OR level) (data_len - offset)")
    obtain rc2 a2 chunk where d2: "DigestUpdate a1 mem2 inp2 offset len = (rc2, a2, chunk)"
      by (cases "DigestUpdate a1 mem2 inp2 offset len")
    have d2': "DigestUpdate a1 mem2 inp2 offset len = (rc2, a2, min len kNodeSize)"
      using d2 ch [OF d2] by simp
    have pos': "0 < len"
      using False by (simp add: word_greater_zero_iff)
    show ?thesis
      unfolding VerifyLevel_loop.simps [of H actual inp1 data_len e1 offset len level mem1]
        VerifyLevel_loop.simps [of H actual inp2 data_len e2 offset len level mem2]
      using pos' by (simp add: Let_def rec di du d2' l2 split: option.split)
  qed
qed

lemma VerifyLevel_cong:
  assumes "d1 = nullptr \<longleftrightarrow> d2 = nullptr" "t1 = nullptr \<longleftrightarrow> t2 = nullptr"
    and "aligned_range offset len = (a, l)"
    and "\<forall>i\<in>{unat a ..< unat a + unat l}. peek mem1 d1 i = peek mem2 d2 i"
    and "\<forall>j\<in>{unat (a div kDigestsPerNode) ..<
            unat (a div kDigestsPerNode) + 32 * ((unat l + 8191) div 8192)}.
          peek mem1 t1 j = peek mem2 t2 j"
  shows "VerifyLevel H d1 data_len t1 offset len level mem1 =
         VerifyLevel H d2 data_len t2 offset len level mem2"
proof -
  have a: "a = offset - offset mod kNodeSize"
    using assms(3) by (auto simp: aligned_range_def Let_def)
  have l: "l = roundup (a + len) kNodeSize - a"
    using assms(3) unfolding a by (auto simp: aligned_range_def Let_def)
  have m: "a mod kNodeSize = 0"
    unfolding a by (rule aligned_down_mod)
  have p1: "\<forall>i<unat l. peek mem1 (ptr_add d1 a) i = peek mem2 (ptr_add d2 a) i"
    using assms(4) by (simp add: peek_ptr_add)
  have p2: "\<forall>j<32 * ((unat l + 8191) div 8192).
      peek mem1 (ptr_add t1 (a div kDigestsPerNode)) j = peek mem2 (ptr_add t2 (a div kDigestsPerNode)) j"
    using assms(5) by (simp add: peek_ptr_add)
  note lc = VerifyLevel_loop_cong [OF m p1 p2, of H Digest_new data_len level]
  show ?thesis
    unfolding VerifyLevel_def using assms(1,2) lc by (simp add: Let_def a [symmetric] l [symmetric])
qed

lemma VerifyRoot_cong:
  assumes "d1 = nullptr \<longleftrightarrow> d2 = nullptr"
    and "\<forall>i<unat root_len. peek mem1 d1 i = peek mem2 d2 i"
  shows "VerifyRoot H d1 root_len level expected mem1 = VerifyRoot H d2 root_len level expected mem2"
proof -
  have "unat (min root_len (kNodeSize - 0 mod kNodeSize)) \<le> unat root_len"
    by (simp add: word_le_nat_alt [symmetric])
  then have "load mem1 d1 (unat (min root_len (kNodeSize - 0 mod kNodeSize))) =
      load mem2 d2 (unat (min root_len (kNodeSize - 0 mod kNodeSize)))"
    using assms(2) by (intro load_cong_peek) auto
  then have du: "DigestUpdate a1 mem1 d1 0 root_len = DigestUpdate a1 mem2 d2 0 root_len" for a1
    unfolding DigestUpdate_def Let_def by simp
  obtain rc1 a1 where di: "DigestInit Digest_new level (if root_len = 0 then 0 else kNodeSize) = (rc1, a1)"
    by (cases "DigestInit Digest_new level (if root_len = 0 then 0 else kNodeSize)")
  show ?thesis
    unfolding VerifyRoot_def di du using assms(1) by simp
qed

lemma Verify_loop_cong:
  assumes "d1 = nullptr \<longleftrightarrow> d2 = nullptr"
    and "\<forall>i\<in>fst (touched data_len root_len offset len base). peek mem1 d1 i = peek mem2 d2 i"
    and "\<forall>j\<in>snd (touched data_len root_len offset len base).
           peek mem1 (TreeMem 0) j = peek mem2 (TreeMem 0) j"
  shows "Verify_loop H d1 data_len (TreeMem base) tree_len offset len level root_len root mem1 =
         Verify_loop H d2 data_len (TreeMem base) tree_len offset len level root_len root mem2"
  using assms
proof (induction data_len arbitrary: d1 d2 base tree_len offset len level root_len
    rule: measure_induct_rule [where f = unat])
  case (less data_len)
  show ?case
  proof (cases "data_len > kNodeSize")
    case False
    then have t: "touched data_len root_len offset len base = ({0 ..< unat root_len}, {})"
      by (simp add: touched.simps [of data_len])
    have "VerifyRoot H d1 root_len level root mem1 = VerifyRoot H d2 root_len level root mem2"
      by (rule VerifyRoot_cong [OF less.prems(1)]) (use less.prems(2) t in simp)
    then show ?thesis
      using False
      by (simp add: Verify_loop.simps [of H d1 data_len] Verify_loop.simps [of H d2 data_len])
  next
    case True
    obtain a l where al: "aligned_range offset len = (a, l)"
      by (cases "aligned_range offset len")
    define base' where "base' = base + unat (NextAligned data_len)"
    obtain own' rest' where t': "touched (NextAligned data_len) (NextLength data_len)
        (offset div kDigestsPerNode) (len div kDigestsPerNode) base' = (own', rest')"
      by (cases "touched (NextAligned data_len) (NextLength data_len)
        (offset div kDigestsPerNode) (len div kDigestsPerNode) base'")
    have t: "touched data_len root_len offset len base =
        ({unat a ..< unat a + unat l},
         {base + unat (a div kDigestsPerNode) ..<
            base + unat (a div kDigestsPerNode) + 32 * ((unat l + 8191) div 8192)}
         \<union> (\<lambda>i. base + i) ` own' \<union> rest')"
      using True by (simp add: touched.simps [of data_len] al t' [unfolded base'_def])
    have lv: "VerifyLevel H d1 data_len (TreeMem base) offset len level mem1 =
        VerifyLevel H d2 data_len (TreeMem base) offset len level mem2"
    proof (rule VerifyLevel_cong [OF less.prems(1) _ al])
      show "(TreeMem base = nullptr) = (TreeMem base = nullptr)" ..
      show "\<forall>i\<in>{unat a ..< unat a + unat l}. peek mem1 d1 i = peek mem2 d2 i"
        using less.prems(2) t by simp
      show "\<forall>j\<in>{unat (a div kDigestsPerNode) ..<
            unat (a div kDigestsPerNode) + 32 * ((unat l + 8191) div 8192)}.
          peek mem1 (TreeMem base) j = peek mem2 (TreeMem base) j"
      proof
        fix j
        assume "j \<in> {unat (a div kDigestsPerNode) ..<
            unat (a div kDigestsPerNode) + 32 * ((unat l + 8191) div 8192)}"
        then have "base + j \<in> snd (touched data_len root_len offset len base)"
          unfolding t by simp
        then show "peek mem1 (TreeMem base) j = peek mem2 (TreeMem base) j"
          using less.prems(3) peek_TreeMem [of _ base j] by metis
      qed
    qed
    have dec: "unat (NextAligned data_len) < unat data_len"
      using NextAligned_less [OF True] by (simp add: word_less_nat_alt)
    have q1: "\<forall>i\<in>fst (touched (NextAligned data_len) (NextLength data_len)
        (offset div kDigestsPerNode) (len div kDigestsPerNode) base').
        peek mem1 (TreeMem base) i = peek mem2 (TreeMem base) i"
    proof
      fix i
      assume "i \<in> fst (touched (NextAligned data_len) (NextLength data_len)
        (offset div kDigestsPerNode) (len div kDigestsPerNode) base')"
      then have "base + i \<in> snd (touched data_len root_len offset len base)"
        unfolding t t' by simp
      then show "peek mem1 (TreeMem base) i = peek mem2 (TreeMem base) i"
        using less.prems(3) peek_TreeMem [of _ base i] by metis
    qed
    have q2: "\<forall>j\<in>snd (touched (NextAligned data_len) (NextLength data_len)
        (offset div kDigestsPerNode) (len div kDigestsPerNode) base').
        peek mem1 (TreeMem 0) j = peek mem2 (TreeMem 0) j"
      using less.prems(3) unfolding t t' by simp
    have ih: "Verify_loop H (TreeMem base) (NextAligned data_len) (TreeMem base')
          (tree_len - NextAligned data_len) (offset div kDigestsPerNode) (len div kDigestsPerNode)
          (level + 1) (NextLength data_len) root mem1 =
        Verify_loop H (TreeMem base) (NextAligned data_len) (TreeMem base')
          (tree_len - NextAligned data_len) (offset div kDigestsPerNode) (len div kDigestsPerNode)
          (level + 1) (NextLength data_len) root mem2"
      by (rule less.IH [OF dec _ q1 q2]) simp
    have pa: "ptr_add (TreeMem base) (NextAligned data_len) = TreeMem base'"
      by (simp add: ptr_add_def base'_def)
    show ?thesis
      unfolding Verify_loop.simps [of H d1 data_len "TreeMem base" tree_len offset len level root_len root mem1]
        Verify_loop.simps [of H d2 data_len "TreeMem base" tree_len offset len level root_len root mem2]
      using True lv ih by (simp add: Let_def pa)
  qed
qed


lemma full_facts:
  "kNodeSize mod kNodeSize = 0" "min kNodeSize kNodeSize = kNodeSize" "kNodeSize < UINT32_MAX"
  "kNodeSize \<noteq> 0" "min kNodeSize (kNodeSize - 0) = kNodeSize" "NextAligned kNodeSize = 0"
  "(ucast kNodeSize :: uint32_t) = 8192" "\<not> kNodeSize < kNodeSize"
  by (simp_all add: NextAligned_small) (simp_all add: kNodeSize_def UINT32_MAX_def)

lemma full_Create:
  assumes "length bs = 8192"
  shows "Create H heap (Data bs 0) kNodeSize tree tree_len (Some d) mem =
     (NO_ERROR, mem, Some \<lparr>ctx = node_msg 0 8192 bs, bytes_m = H (node_msg 0 8192 bs)\<rparr>)"
proof -
  note ff = full_facts
  have ld: "load mem (Data bs 0) 8192 = Some bs"
    using load_Data_all [of mem bs] assms by simp
  define t0 where "t0 = Tree True None 0 0 kNodeSize Digest_new"
  define dg where "dg = \<lparr>ctx = node_msg 0 8192 bs, bytes_m = H (node_msg 0 8192 bs)\<rparr>"
  have bn: "begin_node t0 = (NO_ERROR, Digest_new\<lparr>ctx := le_bytes 8 (0::uint64_t) @ le_bytes 4 (8192 :: uint32_t)\<rparr>)"
    by (simp add: begin_node_def t0_def DigestInit_ok ff)
  have lp: "CreateUpdate_loop H t0 (Data bs 0) kNodeSize (ptr_add tree 0) 0 (ptr_add tree 0) mem =
      (NO_ERROR, Tree True None 0 kNodeSize kNodeSize dg, mem)"
    apply (subst CreateUpdate_loop.simps)
    apply (simp add: bn ff)
    apply (simp add: t0_def DigestUpdate_def ff ld Digest_Update_def DigestFinal_def Digest_Final_def
        advance_def Digest_new_def dg_def node_msg_def assms)
    done
  have up: "CreateUpdate H t0 (Data bs 0) kNodeSize tree mem =
      (NO_ERROR, Tree True None 0 kNodeSize kNodeSize dg, mem)"
    apply (subst CreateUpdate.simps)
    using lp apply (simp add: t0_def ff)
    done
  have fin: "CreateFinal H (Tree True None 0 kNodeSize kNodeSize dg) tree (Some d) mem =
      (NO_ERROR, Tree False None 0 kNodeSize kNodeSize dg, mem, Some dg)"
    unfolding CreateFinal_def
    apply (subst CreateFinalInternal.simps)
    apply (simp add: ff set_digest_def CreateUpdate_zero set_initialized_def)
    done
  show ?thesis
    using up fin
    by (simp add: Create_def CreateInit_small ff Tree_new_def t0_def dg_def)
qed

lemma full_Verify:
  assumes "length bs = 8192"
  shows "Verify H (Data bs 0) kNodeSize tree tree_len offset len r mem =
     (if H (node_msg 0 8192 bs) = bytes_m r then NO_ERROR else ERR_IO_DATA_INTEGRITY)"
proof -
  note ff = full_facts
  have ld: "load mem (Data bs 0) 8192 = Some bs"
    using load_Data_all [of mem bs] assms by simp
  show ?thesis
    unfolding Verify_def
    apply (subst Verify_loop.simps)
    apply (simp add: ff VerifyRoot_def DigestInit_ok DigestUpdate_def ld
        Digest_Update_def DigestFinal_def Digest_Final_def Digest_new_def node_msg_def assms)
    done
qed

lemma toy_hash_zero_node: "toy_hash (node_msg 0 8192 (replicate 8192 0)) = 8236"
  by (simp add: toy_hash_def node_msg_def le_bytes_zero le_bytes_4_8192 sum_list_replicate)

lemma toy_hash_flipped_node: "toy_hash (node_msg 0 8192 (1 # replicate 8191 0)) = 8237"
  by (simp add: toy_hash_def node_msg_def le_bytes_zero le_bytes_4_8192 sum_list_replicate)

lemma NextAligned_16384: "NextAligned 16384 = 8192" "NextLength 16384 = 64"
  by (simp_all add: NextAligned_def NextLength_def roundup_def kNodeSize_def kDigestsPerNode_eq)

lemma touched_16384:
  "fst (touched 16384 16384 0 1 0) = {0 ..< 8192}"
  "snd (touched 16384 16384 0 1 0) = {0 ..< 64}"
proof -
  have a: "aligned_range 0 1 = (0, 8192)"
    by (simp add: aligned_range_def roundup_def kNodeSize_def)
  have t1: "touched 8192 64 0 0 8192 = ({0 ..< 64}, {})"
    by (simp add: touched.simps [of 8192] kNodeSize_def)
  have t: "touched 16384 16384 0 1 0 = ({0 ..< 8192}, {0 ..< 32} \<union> (\<lambda>i. i) ` {0 ..< 64} \<union> {})"
    apply (subst touched.simps)
    apply (simp add: NextAligned_16384 a kDigestsPerNode_eq t1)
    apply (simp add: kNodeSize_def)
    done
  show "fst (touched 16384 16384 0 1 0) = {0 ..< 8192}"
    by (simp add: t)
  show "snd (touched 16384 16384 0 1 0) = {0 ..< 64}"
    unfolding t by auto
qed


section \<open>Which statuses the builder returns\<close>

lemma skel_unfold:
  "skel t = (initialized_m t, level_m t) # (case next_m t of None \<Rightarrow> [] | Some m \<Rightarrow> skel m)"
  by (cases t) simp

lemma skel_advance [simp]: "skel (advance t off d) = skel t"
  by (cases t) (simp add: advance_def)

lemma skel_set_digest [simp]: "skel (set_digest t d) = skel t"
  by (cases t) (simp add: set_digest_def)

lemma skel_set_next: "skel (set_next t n') = (initialized_m t, level_m t) # skel n'"
  by (cases t) (simp add: set_next_def)

lemma skel_set_initialized: "skel (set_initialized t b) = (b, level_m t) # tl (skel t)"
  by (cases t) (simp add: set_initialized_def)

lemma skel_next: "next_m t = Some n \<Longrightarrow> skel t = (initialized_m t, level_m t) # skel n"
  by (cases t) simp

lemma DigestInit_status: "DigestInit d loc len = (rc, d') \<Longrightarrow> rc = NO_ERROR \<or> rc = ASSERT_FAILED"
  by (auto simp: DigestInit_def Let_def split: if_splits)

lemma begin_node_status: "begin_node t = (rc, d) \<Longrightarrow> rc = NO_ERROR \<or> rc = ASSERT_FAILED"
  using DigestInit_status by (auto simp: begin_node_def split: if_splits)

lemma DigestUpdate_status:
  "DigestUpdate d mem inp off len = (rc, d', chunk) \<Longrightarrow> rc = NO_ERROR \<or> rc = MEM_FAULT"
  by (auto simp: DigestUpdate_def Let_def split: option.splits)

lemma ptr_add_nonnull: "p \<noteq> nullptr \<Longrightarrow> ptr_add p n \<noteq> nullptr"
  by (cases p) (simp_all add: ptr_add_def)

lemma upd_ok_same:
  "rc \<noteq> ERR_BAD_STATE \<Longrightarrow> rc \<noteq> ERR_INVALID_ARGS \<Longrightarrow> skel t' = skel t \<Longrightarrow> upd_ok t b (rc, t', mem')"
  by (simp add: upd_ok_def)

lemma CreateUpdate_upd_ok:
  "upd_ok t (data \<noteq> nullptr \<and> tree \<noteq> nullptr) (CreateUpdate H t data len tree mem)"
  "upd_ok t (out \<noteq> nullptr \<and> nxt \<noteq> nullptr) (CreateUpdate_loop H t inp len out tree_off nxt mem)"
proof (induct H t data len tree mem and H t inp len out tree_off nxt mem
    rule: CreateUpdate_CreateUpdate_loop.induct)
  case (1 H t data len tree mem)
  note s = CreateUpdate.simps [of H t data len tree mem]
  show ?case
  proof (cases "offset_m t \<le> offset_m t + len \<and> initialized_m t \<and> len \<noteq> 0 \<and>
      \<not> length_m t < offset_m t + len \<and> \<not> (data = nullptr \<or> (tree = nullptr \<and> kNodeSize < length_m t))")
    case False
    have h: "\<not> initialized_m t \<Longrightarrow> \<not> list_all fst (skel t)"
      by (subst skel_unfold) simp
    show ?thesis
      using False h unfolding s by (auto simp: upd_ok_def)
  next
    case True
    define tree_off where "tree_off = (offset_m t - (offset_m t mod kNodeSize)) div kDigestsPerNode"
    have ih: "upd_ok t (ptr_add tree tree_off \<noteq> nullptr \<and> ptr_add tree (NextAligned (length_m t)) \<noteq> nullptr)
        (CreateUpdate_loop H t data len (ptr_add tree tree_off) tree_off
           (ptr_add tree (NextAligned (length_m t))) mem)"
      using 1 [of tree_off "ptr_add tree tree_off" "ptr_add tree (NextAligned (length_m t))"] True
      by (simp add: tree_off_def)
    have e: "CreateUpdate H t data len tree mem =
        CreateUpdate_loop H t data len (ptr_add tree tree_off) tree_off
           (ptr_add tree (NextAligned (length_m t))) mem"
      using True unfolding s by (auto simp: Let_def tree_off_def)
    show ?thesis
      unfolding e using ih ptr_add_nonnull [of tree]
      by (auto simp: upd_ok_def split: prod.splits)
  qed
next
  case (2 H t inp len out tree_off nxt mem)
  note ps = CreateUpdate_loop.simps [of H t inp len out tree_off nxt mem]
  show ?case
  proof (cases "len = 0")
    case True
    then show ?thesis unfolding ps by (simp add: upd_ok_def)
  next
    case len: False
    obtain rc1 d1 where bn: "begin_node t = (rc1, d1)"
      by (cases "begin_node t")
    obtain rc2 d2 chunk where du: "DigestUpdate d1 mem inp (offset_m t) len = (rc2, d2, chunk)"
      by (cases "DigestUpdate d1 mem inp (offset_m t) len")
    note st1 = begin_node_status [OF bn]
    note st2 = DigestUpdate_status [OF du]
    define off' where "off' = offset_m t + chunk"
    define t1 where "t1 = advance t off' (DigestFinal H d2 off')"
    show ?thesis
    proof (cases "rc1 = NO_ERROR \<and> rc2 = NO_ERROR \<and> \<not> (off' mod kNodeSize \<noteq> 0 \<and> off' \<noteq> length_m t)
        \<and> \<not> length_m t \<le> kNodeSize")
      case False
      then show ?thesis
        using len st1 st2 by (auto simp: ps bn du Let_def off'_def upd_ok_def)
    next
      case go: True
      show ?thesis
      proof (cases "put_digest mem out tree_off (digest_m t1)")
        case None
        then show ?thesis
          using len go by (simp add: ps bn du Let_def off'_def t1_def upd_ok_def)
      next
        case (Some mem2)
        note pd = this
        show ?thesis
        proof (cases "next_m t")
          case None
          then show ?thesis
            using len go pd by (simp add: ps bn du Let_def off'_def t1_def upd_ok_def)
        next
          case (Some n)
          note nx = this
          obtain rc n' mem3 where cu: "CreateUpdate H n out kLength nxt mem2 = (rc, n', mem3)"
            by (cases "CreateUpdate H n out kLength nxt mem2")
          have ih1: "upd_ok n (out \<noteq> nullptr \<and> nxt \<noteq> nullptr) (rc, n', mem3)"
            using 2(1) [of rc1 d1 rc2 "(d2, chunk)" d2 chunk "ptr_add inp chunk" off'
                "len - chunk" t1 mem2 n]
            using len go bn du pd nx cu
            by (simp add: off'_def t1_def)
          have nx1: "next_m t1 = Some n"
            using nx by (simp add: t1_def)
          have sk: "skel t = (initialized_m t, level_m t) # skel n"
            using nx by (rule skel_next)
          have sk2: "skel (set_next t1 n') = skel t"
            using ih1 by (simp add: skel_set_next sk upd_ok_def t1_def advance_def)
          have bad: "\<not> list_all fst (skel n) \<Longrightarrow> \<not> list_all fst (skel t)"
            by (simp add: sk)
          show ?thesis
          proof (cases "rc = NO_ERROR")
            case False
            have "upd_ok t (out \<noteq> nullptr \<and> nxt \<noteq> nullptr) (rc, set_next t1 n', mem3)"
              using ih1 sk2 bad by (auto simp: upd_ok_def)
            then show ?thesis
              using False len go pd nx1 cu
              by (auto simp: ps bn du Let_def off'_def [symmetric] t1_def [symmetric])
          next
            case True
            have ih2: "upd_ok (set_next t1 n') (ptr_add out kLength \<noteq> nullptr \<and> nxt \<noteq> nullptr)
                (CreateUpdate_loop H (set_next t1 n') (ptr_add inp chunk)
                 (len - chunk) (ptr_add out kLength) (tree_off + kLength) nxt mem3)"
              using 2(2) [of rc1 d1 rc2 "(d2, chunk)" d2 chunk "ptr_add inp chunk" off'
                "len - chunk" t1 mem2 n rc "(n', mem3)" n' mem3 "set_next t1 n'"]
              using len go bn du pd nx cu True
              by (simp add: off'_def t1_def)
            have e: "CreateUpdate_loop H t inp len out tree_off nxt mem =
                CreateUpdate_loop H (set_next t1 n') (ptr_add inp chunk)
                 (len - chunk) (ptr_add out kLength) (tree_off + kLength) nxt mem3"
              using True len go pd nx1 cu
              by (auto simp: ps bn du Let_def off'_def [symmetric] t1_def [symmetric])
            show ?thesis
              unfolding e using ih2 sk2 ptr_add_nonnull [of out kLength]
              by (auto simp: upd_ok_def split: prod.splits)
          qed
        qed
      qed
    qed
  qed
qed

lemma CreateUpdate_skel:
  "CreateUpdate H t data len tree mem = (rc, t', mem') \<Longrightarrow> skel t' = skel t"
  using CreateUpdate_upd_ok(1) [of t data tree H len mem] by (simp add: upd_ok_def)

lemma CreateUpdate_status:
  assumes "CreateUpdate H t data len tree mem = (rc, t', mem')"
    and "list_all fst (skel t)" "data \<noteq> nullptr" "tree \<noteq> nullptr"
  shows "rc \<noteq> ERR_BAD_STATE \<and> rc \<noteq> ERR_INVALID_ARGS"
  using CreateUpdate_upd_ok(1) [of t data tree H len mem] assms by (auto simp: upd_ok_def)

lemma CreateUpdate_calls_skel:
  "CreateUpdate_calls H t calls mem = (t', mem') \<Longrightarrow> skel t' = skel t"
proof (induction calls arbitrary: t mem)
  case Nil
  then show ?case by simp
next
  case (Cons c calls)
  obtain data len tree where c: "c = (data, len, tree)"
    by (cases c)
  obtain rc t1 mem1 where u: "CreateUpdate H t data len tree mem = (rc, t1, mem1)"
    by (cases "CreateUpdate H t data len tree mem")
  have "CreateUpdate_calls H t1 calls mem1 = (t', mem')"
    using Cons.prems by (simp add: c u)
  then have "skel t' = skel t1"
    by (rule Cons.IH)
  then show ?case
    using CreateUpdate_skel [OF u] by simp
qed

lemma CreateInit_levels:
  assumes "next_m t = None" "CreateInit heap t data_len tree_len = (NO_ERROR, t', heap')"
  shows "levels_from (level_m t) (skel t') \<and> length (skel t') \<le> Suc (unat data_len)"
  using assms
proof (induction data_len arbitrary: heap t tree_len t' heap' rule: measure_induct_rule [where f = unat])
  case (less data_len)
  note s = CreateInit.simps [of heap t data_len tree_len]
  show ?case
  proof (cases "data_len \<le> kNodeSize")
    case True
    then have "t' = Tree True None (level_m t) 0 data_len (digest_m t)"
      using less.prems unfolding s by (simp add: Let_def)
    then show ?thesis
      by simp
  next
    case False
    then have big: "kNodeSize < data_len"
      by simp
    obtain h where h: "heap = Suc h"
      using less.prems(2) False unfolding s by (cases heap) (simp_all add: Let_def)
    define n where "n = Tree False None (level_m t + 1) 0 0 Digest_new"
    define t1 where "t1 = Tree True (next_m t) (level_m t) 0 data_len (digest_m t)"
    note s2 = CreateInit.simps [of "Suc h" t data_len tree_len]
    note pr = less.prems(2) [unfolded h]
    have ok: "\<not> tree_len < NextAligned data_len"
      using pr False unfolding s2 by (auto simp: Let_def split: if_splits)
    obtain rc n' h' where r: "CreateInit h n (NextAligned data_len) (tree_len - NextAligned data_len) = (rc, n', h')"
      by (cases "CreateInit h n (NextAligned data_len) (tree_len - NextAligned data_len)")
    have res: "rc = NO_ERROR" "t' = set_next t1 n'"
      using pr False ok r unfolding s2
      by (simp_all add: Let_def n_def [symmetric] t1_def [symmetric])
    have dec: "unat (NextAligned data_len) < unat data_len"
      using NextAligned_less [OF big] by (simp add: word_less_nat_alt)
    have nn: "next_m n = None"
      by (simp add: n_def)
    note ih = less.IH [OF dec nn r [unfolded res(1)]]
    have sk: "skel t' = (True, level_m t) # skel n'"
      unfolding res(2) by (simp add: skel_set_next t1_def)
    show ?thesis
      unfolding sk using ih dec by (simp add: n_def)
  qed
qed

lemma levels_from_nonzero:
  assumes "levels_from l xs" "l \<noteq> 0" "unat l + length xs \<le> 2 ^ 64"
  shows "list_all (\<lambda>(i, l'). i \<and> l' \<noteq> 0) xs"
  using assms
proof (induction xs arbitrary: l)
  case Nil
  then show ?case by simp
next
  case (Cons x xs)
  obtain i l' where x: "x = (i, l')"
    by (cases x)
  have hd: "i" "l' = l" "levels_from (l + 1) xs"
    using Cons.prems(1) by (simp_all add: x)
  show ?case
  proof (cases xs)
    case Nil
    then show ?thesis
      using hd Cons.prems(2) by (simp add: x)
  next
    case (Cons y ys)
    then have "unat l + 2 \<le> 2 ^ 64"
      using Cons.prems(3) by simp
    then have u: "unat (l + 1) = unat l + 1"
      by (simp add: unat_add_lem [THEN iffD1])
    then have "l + 1 \<noteq> 0"
      by (metis Suc_eq_plus1 nat.distinct(1) unat_0 add.commute)
    moreover have "unat (l + 1) + length xs \<le> 2 ^ 64"
      using Cons.prems(3) u by simp
    ultimately have "list_all (\<lambda>(i, l'). i \<and> l' \<noteq> 0) xs"
      using Cons.IH [OF hd(3)] by blast
    then show ?thesis
      using hd Cons.prems(2) by (simp add: x)
  qed
qed

lemma CreateInit_upper_levels:
  assumes "CreateInit heap Tree_new data_len tree_len = (NO_ERROR, t, heap')"
  shows "level_m t = 0 \<and> list_all (\<lambda>(i, l). i \<and> l \<noteq> 0) (tl (skel t))"
proof -
  have n: "next_m Tree_new = None" "level_m Tree_new = 0"
    by (simp_all add: Tree_new_def)
  note lv = CreateInit_levels [OF n(1) assms, unfolded n(2)]
  obtain i l xs where sk: "skel t = (i, l) # xs"
    using skel_unfold [of t] by blast
  have l0: "level_m t = 0"
    using lv sk skel_unfold [of t] by auto
  have lt: "unat data_len < 2 ^ 64"
    using unsigned_less [of data_len, where 'a = nat] by simp
  have "levels_from 1 xs" "unat (1 :: uint64_t) + length xs \<le> 2 ^ 64"
    using lv lt by (simp_all add: sk)
  then have "list_all (\<lambda>(i, l). i \<and> l \<noteq> 0) xs"
    by (intro levels_from_nonzero [of 1]) simp_all
  then show ?thesis
    using l0 by (simp add: sk)
qed

lemma size_set_digest [simp]: "size (set_digest t d) = size t"
  by (cases t) (simp add: set_digest_def)

lemma next_set_initialized [simp]: "next_m (set_initialized t b) = next_m t"
  by (simp add: set_initialized_def)

lemma size_set_initialized [simp]: "size (set_initialized t b) = size t"
  by (cases t) (simp add: set_initialized_def)

lemma first_digest_status:
  assumes "(if length_m t = 0
            then (case DigestInit (digest_m t) 0 0 of (rc0, d0) \<Rightarrow> (rc0, DigestFinal H d0 0))
            else (NO_ERROR, digest_m t)) = (rc0, d0)"
  shows "rc0 = NO_ERROR \<or> rc0 = ASSERT_FAILED"
  using assms DigestInit_status [of "digest_m t" 0 0]
  by (auto split: if_splits prod.splits)

lemma CreateFinalInternal_upper:
  assumes "list_all (\<lambda>(i, l). i \<and> l \<noteq> 0) (skel t)" "data \<noteq> nullptr" "tree \<noteq> nullptr"
    and "root \<noteq> None"
  shows "fst (CreateFinalInternal H t data tree root mem) \<noteq> ERR_BAD_STATE \<and>
         fst (CreateFinalInternal H t data tree root mem) \<noteq> ERR_INVALID_ARGS"
  using assms
proof (induction t arbitrary: data tree mem rule: measure_induct_rule [where f = size])
  case (less t)
  note s = CreateFinalInternal.simps [of H t data tree root mem]
  have hd: "initialized_m t" "level_m t \<noteq> 0"
    using less.prems(1) by (subst (asm) skel_unfold, simp)+
  have ai: "list_all fst (skel t)"
    using less.prems(1) by (induction "skel t") (auto simp: list_all_iff)
  obtain rc0 d0 where fd: "(if length_m t = 0
            then (case DigestInit (digest_m t) 0 0 of (rc0, d0) \<Rightarrow> (rc0, DigestFinal H d0 0))
            else (NO_ERROR, digest_m t)) = (rc0, d0)"
    by (cases "(if length_m t = 0
            then (case DigestInit (digest_m t) 0 0 of (rc0, d0) \<Rightarrow> (rc0, DigestFinal H d0 0))
            else (NO_ERROR, digest_m t))")
  note st0 = first_digest_status [OF fd]
  define t0 where "t0 = set_digest t d0"
  obtain rc t1 mem1 where cu: "CreateUpdate H t0 (ptr_add data (offset_m t0))
      (length_m t0 - offset_m t0) tree mem = (rc, t1, mem1)"
    by (cases "CreateUpdate H t0 (ptr_add data (offset_m t0)) (length_m t0 - offset_m t0) tree mem")
  have sk1: "skel t1 = skel t"
    using CreateUpdate_skel [OF cu] by (simp add: t0_def)
  have st: "rc \<noteq> ERR_BAD_STATE \<and> rc \<noteq> ERR_INVALID_ARGS"
    using CreateUpdate_status [OF cu] ai ptr_add_nonnull [OF less.prems(2)] less.prems(3)
    by (simp add: t0_def)
  define t2 where "t2 = set_initialized t1 False"
  have sz: "size t1 = size t"
    using CreateUpdate_size [of H t0 "ptr_add data (offset_m t0)" "length_m t0 - offset_m t0" tree mem] cu
    by (simp add: t0_def)
  show ?case
  proof (cases "rc0 = NO_ERROR \<and> rc = NO_ERROR \<and> \<not> length_m t2 \<le> kNodeSize")
    case False
    then show ?thesis
      unfolding s using hd less.prems(3,4) fd st0 cu st
      by (auto simp: Let_def t0_def [symmetric] t2_def [symmetric])
  next
    case True
    show ?thesis
    proof (cases "next_m t2")
      case None
      then show ?thesis
        unfolding s using hd less.prems(3,4) fd cu True
        by (simp add: Let_def t0_def [symmetric] t2_def [symmetric])
    next
      case (Some n)
      have n1: "next_m t1 = Some n"
        using Some by (simp add: t2_def)
      have "size n < size t"
        using size_next_less [OF n1] sz by simp
      moreover have "list_all (\<lambda>(i, l). i \<and> l \<noteq> 0) (skel n)"
      proof -
        have "list_all (\<lambda>(i, l). i \<and> l \<noteq> 0) ((initialized_m t1, level_m t1) # skel n)"
          using less.prems(1) unfolding sk1 [symmetric] skel_next [OF n1] .
        then show ?thesis
          by simp
      qed
      ultimately have ih: "fst (CreateFinalInternal H n tree (ptr_add tree (NextAligned (length_m t2))) root mem1)
            \<noteq> ERR_BAD_STATE \<and>
          fst (CreateFinalInternal H n tree (ptr_add tree (NextAligned (length_m t2))) root mem1)
            \<noteq> ERR_INVALID_ARGS"
        using less.IH less.prems(3,4) ptr_add_nonnull [OF less.prems(3)] by blast
      show ?thesis
        unfolding s using hd less.prems(3,4) fd cu True Some ih
        by (auto simp: Let_def t0_def [symmetric] t2_def [symmetric] split: prod.split)
    qed
  qed
qed

lemma CreateFinal_status_atomic:
  assumes "level_m t = 0" "list_all (\<lambda>(i, l). i \<and> l \<noteq> 0) (tl (skel t))"
    and "CreateFinal H t tree root mem = (rc, t', mem', root')"
    and "rc = ERR_BAD_STATE \<or> rc = ERR_INVALID_ARGS"
  shows "t' = t \<and> mem' = mem \<and> root' = root"
proof (cases "\<not> initialized_m t \<or> (level_m t = 0 \<and> offset_m t \<noteq> length_m t)")
  case True
  then show ?thesis
    using CreateFinal_bad_state [of t H tree root mem] assms(3) by simp
next
  case h1: False
  show ?thesis
  proof (cases "root = None \<or> (tree = nullptr \<and> kNodeSize < length_m t)")
    case True
    then show ?thesis
      using CreateFinal_invalid_args [of t root tree H mem] h1 assms(3) by simp
  next
    case h2: False
    note s = CreateFinalInternal.simps [of H t nullptr tree root mem]
    have ol: "offset_m t = length_m t" "initialized_m t"
      using h1 assms(1) by simp_all
    obtain rc0 d0 where fd: "(if length_m t = 0
            then (case DigestInit (digest_m t) 0 0 of (rc0, d0) \<Rightarrow> (rc0, DigestFinal H d0 0))
            else (NO_ERROR, digest_m t)) = (rc0, d0)"
      by (cases "(if length_m t = 0
            then (case DigestInit (digest_m t) 0 0 of (rc0, d0) \<Rightarrow> (rc0, DigestFinal H d0 0))
            else (NO_ERROR, digest_m t))")
    note st0 = first_digest_status [OF fd]
    define t0 where "t0 = set_digest t d0"
    have t0: "initialized_m t0" "length_m t0 - offset_m t0 = 0" "length_m t0 = length_m t"
      "next_m t0 = next_m t"
      using ol by (simp_all add: t0_def set_digest_def)
    have cu: "CreateUpdate H t0 (ptr_add nullptr (offset_m t0)) (length_m t0 - offset_m t0) tree mem =
        (NO_ERROR, t0, mem)"
      unfolding t0(2) by (rule CreateUpdate_zero [OF t0(1)])
    define t2 where "t2 = set_initialized t0 False"
    have t2: "length_m t2 = length_m t" "next_m t2 = next_m t"
      using t0 by (simp_all add: t2_def set_initialized_def)
    have "rc \<noteq> ERR_BAD_STATE \<and> rc \<noteq> ERR_INVALID_ARGS"
    proof (cases "rc0 = NO_ERROR \<and> \<not> length_m t \<le> kNodeSize")
      case False
      then show ?thesis
        using assms(3) h1 h2 fd st0 cu unfolding CreateFinal_def s
        by (auto simp: Let_def t0_def [symmetric] t2_def [symmetric] t2)
    next
      case True
      then have tn: "tree \<noteq> nullptr"
        using h2 by auto
      show ?thesis
      proof (cases "next_m t")
        case None
        then show ?thesis
          using assms(3) h1 h2 fd cu True unfolding CreateFinal_def s
          by (auto simp: Let_def t0_def [symmetric] t2_def [symmetric] t2)
      next
        case (Some n)
        have "list_all (\<lambda>(i, l). i \<and> l \<noteq> 0) (skel n)"
          using assms(2) unfolding skel_next [OF Some] by simp
        then have up: "fst (CreateFinalInternal H n tree (ptr_add tree (NextAligned (length_m t))) root mem)
              \<noteq> ERR_BAD_STATE \<and>
            fst (CreateFinalInternal H n tree (ptr_add tree (NextAligned (length_m t))) root mem)
              \<noteq> ERR_INVALID_ARGS"
          using CreateFinalInternal_upper [OF _ tn ptr_add_nonnull [OF tn]] h2 by blast
        show ?thesis
          using assms(3) h1 h2 fd cu True Some up unfolding CreateFinal_def s
          by (auto simp: Let_def t0_def [symmetric] t2_def [symmetric] t2 split: prod.splits)
      qed
    qed
    then show ?thesis
      using assms(4) by simp
  qed
qed

lemma length_le_bytes [simp]: "length (le_bytes n w) = n"
  by (simp add: le_bytes_def)

lemma put_digest_TreeMem:
  assumes "k + 32 \<le> length mem" "tree_off mod kNodeSize = 0 \<longrightarrow> k + 8192 \<le> length mem"
  shows "\<exists>mem2. put_digest mem (TreeMem k) tree_off d = Some mem2 \<and> length mem2 = length mem"
proof -
  have ne: "Digest_CopyTo d \<noteq> []" and ln: "length (Digest_CopyTo d) = 32"
    by (auto simp: Digest_CopyTo_def le_bytes_def)
  show ?thesis
  proof (cases "tree_off mod kNodeSize = 0")
  case True
  define mem1 where "mem1 = take k mem @ replicate 8192 0 @ drop (k + 8192) mem"
  have l1: "length mem1 = length mem"
    using assms True by (simp add: mem1_def)
  have s1: "store mem (TreeMem k) (replicate (unat kNodeSize) 0) = Some mem1"
    using assms True by (simp add: store_def mem1_def)
  have "k + 32 \<le> length mem1"
    using assms l1 by simp
  then have "store mem1 (TreeMem k) (Digest_CopyTo d) =
      Some (take k mem1 @ Digest_CopyTo d @ drop (k + 32) mem1)"
    using ne ln by (simp add: store_def)
  moreover have "length (take k mem1 @ Digest_CopyTo d @ drop (k + 32) mem1) = length mem"
    using assms l1 ln by simp
  ultimately show ?thesis
    using True s1 by (simp add: put_digest_def)
next
  case False
  have "store mem (TreeMem k) (Digest_CopyTo d) =
      Some (take k mem @ Digest_CopyTo d @ drop (k + 32) mem)"
    using assms ne ln by (simp add: store_def)
  moreover have "length (take k mem @ Digest_CopyTo d @ drop (k + 32) mem) = length mem"
    using assms ln by simp
  ultimately show ?thesis
    using False by (simp add: put_digest_def)
qed
qed

lemma CreateUpdate_uninitialized_next:
  assumes t: "initialized_m t" "next_m t = Some n" "kNodeSize < length_m t"
    and n: "\<not> initialized_m n" "offset_m n \<le> offset_m n + kLength"
    and off: "offset_m t mod kNodeSize = 0" "length_m t - offset_m t < UINT32_MAX"
    and len: "len \<noteq> 0" "len \<le> kNodeSize" "offset_m t \<le> offset_m t + len"
      "\<not> length_m t < offset_m t + len"
      "(offset_m t + len) mod kNodeSize = 0 \<or> offset_m t + len = length_m t"
    and buf: "unat len \<le> length bs"
    and tree: "unat ((offset_m t - offset_m t mod kNodeSize) div kDigestsPerNode) + 32 \<le> length mem"
      "((offset_m t - offset_m t mod kNodeSize) div kDigestsPerNode) mod kNodeSize = 0 \<longrightarrow>
         unat ((offset_m t - offset_m t mod kNodeSize) div kDigestsPerNode) + 8192 \<le> length mem"
  shows "\<exists>d' mem'. CreateUpdate H t (Data bs 0) len (TreeMem 0) mem =
           (ERR_BAD_STATE, set_next (advance t (offset_m t + len) d') n, mem') \<and>
         length mem' = length mem"
proof -
  define tree_off where "tree_off = (offset_m t - offset_m t mod kNodeSize) div kDigestsPerNode"
  define out where "out = TreeMem (unat tree_off)"
  define nxt where "nxt = ptr_add (TreeMem 0) (NextAligned (length_m t))"
  have e: "CreateUpdate H t (Data bs 0) len (TreeMem 0) mem =
      CreateUpdate_loop H t (Data bs 0) len out tree_off nxt mem"
    using t len by (simp add: CreateUpdate.simps [of H t] Let_def tree_off_def out_def nxt_def ptr_add_def)
  obtain d1 where bn: "begin_node t = (NO_ERROR, d1)"
    using off by (simp add: begin_node_def DigestInit_ok)
  have ch: "min len (kNodeSize - offset_m t mod kNodeSize) = len"
    using off(1) len(2) by simp
  define d2 where "d2 = Digest_Update d1 (take (unat len) bs)"
  have du: "DigestUpdate d1 mem (Data bs 0) (offset_m t) len = (NO_ERROR, d2, len)"
    using buf by (simp add: DigestUpdate_def Let_def ch load_Data d2_def)
  define off' where "off' = offset_m t + len"
  define d' where "d' = DigestFinal H d2 off'"
  define t1 where "t1 = advance t off' d'"
  have fin: "\<not> (off' mod kNodeSize \<noteq> 0 \<and> off' \<noteq> length_m t)"
    using len(5) by (auto simp: off'_def)
  have big: "\<not> length_m t \<le> kNodeSize"
    using t(3) by simp
  obtain mem2 where pd: "put_digest mem out tree_off (digest_m t1) = Some mem2"
    and l2: "length mem2 = length mem"
    using put_digest_TreeMem [of "unat tree_off" mem tree_off "digest_m t1"] tree
    unfolding tree_off_def [symmetric] out_def by blast
  have nx: "next_m t1 = Some n"
    using t(2) by (simp add: t1_def)
  have cu: "CreateUpdate H n out kLength nxt mem2 = (ERR_BAD_STATE, n, mem2)"
    using n by (simp add: CreateUpdate.simps [of H n])
  have "CreateUpdate_loop H t (Data bs 0) len out tree_off nxt mem =
      (ERR_BAD_STATE, set_next t1 n, mem2)"
    unfolding CreateUpdate_loop.simps [of H t "Data bs 0" len out tree_off nxt mem]
    using len(1) fin big pd nx cu
    by (auto simp: bn du Let_def off'_def [symmetric] d'_def [symmetric] t1_def [symmetric])
  then have "CreateUpdate H t (Data bs 0) len (TreeMem 0) mem =
      (ERR_BAD_STATE, set_next (advance t (offset_m t + len) d') n, mem2) \<and>
      length mem2 = length mem"
    using e l2 unfolding t1_def off'_def by simp
  then show ?thesis
    by (intro exI)
qed

lemma CreateFinal_uninitialized_next:
  assumes "initialized_m t" "level_m t = 0" "offset_m t = length_m t" "kNodeSize < length_m t"
    and "next_m t = Some n" "\<not> initialized_m n" "tree \<noteq> nullptr"
  shows "CreateFinal H t tree (Some d) mem =
     (ERR_BAD_STATE, set_next (set_initialized t False) n, mem, Some d)"
proof -
  have nz: "length_m t \<noteq> 0"
    using assms(4) by auto
  have cu: "CreateUpdate H (set_digest t (digest_m t)) (ptr_add nullptr (length_m t)) 0 tree mem =
      (NO_ERROR, set_digest t (digest_m t), mem)"
    by (rule CreateUpdate_zero) (simp add: set_digest_def assms(1))
  have sd: "set_digest t (digest_m t) = t"
    by (cases t) (simp add: set_digest_def)
  have up: "CreateFinalInternal H n tree (ptr_add tree (NextAligned (length_m t))) (Some d) mem =
      (ERR_BAD_STATE, n, mem, Some d)"
    using assms(6) by (simp add: CreateFinalInternal.simps [of H n])
  show ?thesis
    unfolding CreateFinal_def CreateFinalInternal.simps [of H t nullptr tree "Some d" mem]
    using assms nz cu up
    by (simp add: Let_def sd set_initialized_def leD)
qed

lemma failed_init_run_result:
  "fst (failed_init_run H) = [ERR_BUFFER_TOO_SMALL, ERR_BAD_STATE, ERR_BAD_STATE, ERR_BAD_STATE] \<and>
   initialized_m (fst (snd (failed_init_run H))) \<and>
   \<not> initialized_m (snd (snd (failed_init_run H)))"
proof -
  define n where "n = Tree False None 1 0 0 Digest_new"
  define t0 where "t0 = Tree True (Some n) 0 0 8193 Digest_new"
  have ci: "CreateInit (Suc 0) Tree_new 8193 0 = (ERR_BUFFER_TOO_SMALL, t0, 0)"
    by (simp add: CreateInit_too_small_8193 t0_def n_def)
  have k: "kNodeSize = 8192" "kLength = 32" "UINT32_MAX = 4294967295"
    by (simp_all add: kNodeSize_def kLength_def UINT32_MAX_def)
  obtain d1 mem1 where u1: "CreateUpdate H t0 (Data (replicate 8192 0) 0) 8192 (TreeMem 0) (replicate 8192 0) =
      (ERR_BAD_STATE, set_next (advance t0 (offset_m t0 + 8192) d1) n, mem1)"
    and l1: "length mem1 = length (replicate 8192 (0 :: byte))"
    using CreateUpdate_uninitialized_next [of t0 n 8192 "replicate 8192 0" "replicate 8192 0" H]
    by (auto simp: t0_def n_def k kDigestsPerNode_eq)
  define t1 where "t1 = set_next (advance t0 (offset_m t0 + 8192) d1) n"
  have t1: "t1 = Tree True (Some n) 0 8192 8193 d1"
    by (simp add: t1_def t0_def set_next_def advance_def)
  obtain d2 mem2 where u2: "CreateUpdate H t1 (Data [0] 0) 1 (TreeMem 0) mem1 =
      (ERR_BAD_STATE, set_next (advance t1 (offset_m t1 + 1) d2) n, mem2)"
    using CreateUpdate_uninitialized_next [of t1 n 1 "[0]" mem1 H] l1
    by (auto simp: t1 n_def k kDigestsPerNode_eq)
  define t2 where "t2 = set_next (advance t1 (offset_m t1 + 1) d2) n"
  have t2: "t2 = Tree True (Some n) 0 8193 8193 d2"
    by (simp add: t2_def t1 set_next_def advance_def)
  have f: "CreateFinal H t2 (TreeMem 0) (Some Digest_new) mem2 =
      (ERR_BAD_STATE, set_next (set_initialized t2 False) n, mem2, Some Digest_new)"
    by (rule CreateFinal_uninitialized_next) (simp_all add: t2 n_def k)
  have "failed_init_run H =
      ([ERR_BUFFER_TOO_SMALL, ERR_BAD_STATE, ERR_BAD_STATE, ERR_BAD_STATE], t2,
       set_next (set_initialized t2 False) n)"
    by (simp add: failed_init_run_def ci u1 t1_def [symmetric] u2 t2_def [symmetric] f)
  then show ?thesis
    by (simp add: t2 set_next_def set_initialized_def)
qed

lemma CreateUpdate_one_byte_3:
  "CreateUpdate H (Tree True None 0 0 3 Digest_new) (Data [1] 0) 1 nullptr [] =
     (NO_ERROR,
      Tree True None 0 1 3 \<lparr>ctx = le_bytes 8 (0::uint64_t) @ le_bytes 4 (3::uint32_t) @ [1], bytes_m = 0\<rparr>,
      [])"
  apply (subst CreateUpdate.simps)
  apply (simp add: kNodeSize_def)
  apply (subst CreateUpdate_loop.simps)
  apply (simp add: begin_node_def kNodeSize_def DigestInit_ok UINT32_MAX_def DigestUpdate_def
      load_def Digest_Update_def Digest_new_def advance_def)
  done

section \<open>Claims about the level geometry\<close>

text \<open>
  C10. For every length \<open>L > NODE_SIZE\<close> the next level is strictly shorter,
  \<open>NextAligned L < L\<close>; this holds below the overflow region of the 64-bit \<open>roundup\<close> and
  also inside it, where \<open>NextAligned L = 0\<close>. It is the measure under which the recursions
  of \<^verbatim>\<open>GetTreeLength\<close>, of the level chain of \<^verbatim>\<open>CreateInit\<close> and of the ascending loop
  of \<^verbatim>\<open>Verify\<close> are defined as total functions, and every \<open>data_len\<close> reaches a level
  that fits in one node after finitely many steps.
\<close>

theorem level_recursion_descends:
  "(kNodeSize < L \<longrightarrow> NextAligned L < L) \<and> (\<exists>n. (NextAligned ^^ n) L \<le> kNodeSize)"
  using NextAligned_less [of L] levels_finite [of L] by blast

theorem level_recursion_descends_witness:
  "kNodeSize < (8193 :: size_t) \<and> NextAligned 8193 < 8193 \<and>
   (\<exists>n. (NextAligned ^^ n) 8193 \<le> kNodeSize)"
  using level_recursion_descends [of 8193] by (simp add: kNodeSize_def)

text \<open>
  C3, as the claim states it, fails in the overflow region of \<open>roundup\<close>: a length within
  \<open>NODE_SIZE - 1\<close> of \<open>2\<^sup>6\<^sup>4\<close> rounds up to \<open>0\<close>, so the tree length is \<open>0\<close> although the
  length exceeds \<open>NODE_SIZE\<close>.
\<close>

theorem GetTreeLength_zero_counterexample:
  "GetTreeLength 18446744073709551615 = 0 \<and> \<not> (18446744073709551615 :: size_t) \<le> kNodeSize"
  by (simp add: GetTreeLength.simps NextAligned_def NextLength_def roundup_def kNodeSize_def
      kDigestsPerNode_eq)

text \<open>
  C3, amended. For every \<open>data_len \<le> 2\<^sup>6\<^sup>4 - NODE_SIZE\<close>, \<open>GetTreeLength data_len = 0\<close> if
  and only if \<open>data_len \<le> NODE_SIZE\<close>. For every \<open>data_len\<close> the tree length is the sum of the
  node-aligned level sizes \<open>A(L\<^sub>1) + \<dots> + A(L\<^sub>n)\<close> up to any level \<open>n\<close> whose successor is
  empty, such a level exists, and
  \<open>GetTreeLength (NODE_SIZE * DIGESTS_PER_NODE + 1) = 3 * NODE_SIZE\<close>.
\<close>

theorem GetTreeLength_sizing:
  "(L \<le> 2 ^ 64 - 8192 \<longrightarrow> (GetTreeLength L = 0 \<longleftrightarrow> L \<le> kNodeSize)) \<and>
   (A_spec (Suc n) L = 0 \<longrightarrow> GetTreeLength L = (\<Sum>k = 1..n. A_spec k L)) \<and>
   (\<exists>m. A_spec (Suc m) L = 0) \<and>
   GetTreeLength (kNodeSize * kDigestsPerNode + 1) = 3 * kNodeSize"
  using GetTreeLength_zero_iff [of L] GetTreeLength_sum [of n L] A_spec_reaches_zero [of L]
    GetTreeLength_two_digest_nodes
  by blast

theorem GetTreeLength_sizing_witness:
  "(2097153 :: size_t) \<le> 2 ^ 64 - 8192 \<and> GetTreeLength 2097153 \<noteq> 0 \<and>
   \<not> (2097153 :: size_t) \<le> kNodeSize \<and> A_spec (Suc (Suc (Suc 0))) 2097153 = 0 \<and>
   GetTreeLength 2097153 = A_spec (Suc 0) 2097153 + A_spec (Suc (Suc 0)) 2097153"
proof -
  have a: "A_spec (Suc (Suc (Suc 0))) 2097153 = 0"
    by (simp add: A_spec.simps(2) next_len_spec_def roundup_def)
  have b: "(2097153 :: size_t) \<le> 2 ^ 64 - 8192"
    by simp
  have c: "\<not> (2097153 :: size_t) \<le> kNodeSize"
    by (simp add: kNodeSize_def)
  have d: "(\<Sum>k = 1..Suc (Suc 0). A_spec k L) = A_spec (Suc 0) L + A_spec (Suc (Suc 0)) L"
    for L
    by (simp add: sum.atLeast_Suc_atMost)
  show ?thesis
    using GetTreeLength_sizing [of 2097153 "Suc (Suc 0)"] a b c unfolding d by blast
qed

section \<open>Claims about the root of a blob of at most one node\<close>

text \<open>
  C1. The round trip fails on the code for every blob of 1 to 8191 bytes. The builder
  hashes the only node of such a blob with the length tag \<open>data_len\<close>, and
  \<^verbatim>\<open>VerifyRoot\<close> hashes it with the length tag \<open>NODE_SIZE\<close>; whenever the hash
  separates the two messages, \<^verbatim>\<open>Create\<close> succeeds and \<^verbatim>\<open>Verify\<close> of any range
  against the root it produced returns \<open>ERR_IO_DATA_INTEGRITY\<close>.
\<close>

theorem roundtrip_fails_below_one_node:
  assumes "L \<noteq> 0" "L < kNodeSize" "length bs = unat L"
    and "H (node_msg 0 (ucast kNodeSize) bs) \<noteq> H (node_msg 0 (ucast L) bs)"
  shows "\<exists>root. Create H heap (Data bs 0) L tree tree_len (Some d) mem = (NO_ERROR, mem, Some root) \<and>
           Verify H (Data bs 0) L tree tree_len offset len root mem = ERR_IO_DATA_INTEGRITY"
  using assms(4) by (simp add: short_Create [OF assms(1-3)] short_Verify [OF assms(1-3)])

theorem roundtrip_fails_below_one_node_witness:
  "(1::size_t) \<noteq> 0 \<and> (1::size_t) < kNodeSize \<and> length [7::byte] = unat (1::size_t) \<and>
   toy_hash (node_msg 0 (ucast kNodeSize) [7]) \<noteq> toy_hash (node_msg 0 (ucast (1::size_t)) [7]) \<and>
   (\<exists>root. Create toy_hash 0 (Data [7] 0) 1 nullptr 0 (Some Digest_new) [] = (NO_ERROR, [], Some root) \<and>
      Verify toy_hash (Data [7] 0) 1 nullptr 0 0 1 root [] = ERR_IO_DATA_INTEGRITY)"
proof -
  have a: "toy_hash (node_msg 0 (ucast kNodeSize) [7]) = 8243"
    by (simp add: toy_hash_def node_msg_def le_bytes_zero le_bytes_4_8192 kNodeSize_def
        sum_list_replicate)
  have b: "toy_hash (node_msg 0 (ucast (1::size_t)) [7]) = 8212"
    by (simp add: toy_hash_def node_msg_def le_bytes_zero le_bytes_4_1 sum_list_replicate)
  have c: "toy_hash (node_msg 0 (ucast kNodeSize) [7]) \<noteq> toy_hash (node_msg 0 (ucast (1::size_t)) [7])"
    unfolding a b by simp
  have d: "(1::size_t) \<noteq> 0" "(1::size_t) < kNodeSize" "length [7::byte] = unat (1::size_t)"
    by (simp_all add: kNodeSize_def)
  show ?thesis
    using roundtrip_fails_below_one_node [OF d c, of 0 nullptr 0 Digest_new "[]" 0 1] c d
    by simp
qed

text \<open>
  C4. The builder begins the only node of a one-byte blob with the length tag
  \<open>min(NODE_SIZE, length - offset) = 1\<close>, and \<^verbatim>\<open>VerifyRoot\<close> hashes the same node with the
  length tag \<open>NODE_SIZE = 8192\<close>: the top-level comparison does not use the tag of the
  claim, and builder and verifier differ on this node.
\<close>

theorem length_tag_of_root_differs:
  "ctx (snd (begin_node (Tree True None 0 0 1 d))) = le_bytes 8 (0::uint64_t) @ le_bytes 4 (1::uint32_t) \<and>
   VerifyRoot H (Data [b] 0) 1 0 expected mem =
     (if H (le_bytes 8 (0::uint64_t) @ le_bytes 4 (8192::uint32_t) @ [b] @ replicate 8191 0) = bytes_m expected
      then NO_ERROR else ERR_IO_DATA_INTEGRITY)"
proof -
  have k: "kNodeSize < UINT32_MAX" "min kNodeSize kNodeSize = kNodeSize" "(1::size_t) < UINT32_MAX"
      "min (1::size_t) kNodeSize = 1"
    by (simp_all add: kNodeSize_def UINT32_MAX_def)
  have "ctx (snd (begin_node (Tree True None 0 0 1 d))) = le_bytes 8 (0::uint64_t) @ le_bytes 4 (1::uint32_t)"
    by (simp add: begin_node_def DigestInit_ok k)
  moreover have "VerifyRoot H (Data [b] 0) 1 0 expected mem =
     (if H (le_bytes 8 (0::uint64_t) @ le_bytes 4 (8192::uint32_t) @ [b] @ replicate 8191 0) = bytes_m expected
      then NO_ERROR else ERR_IO_DATA_INTEGRITY)"
    by (simp add: VerifyRoot_def DigestInit_ok UINT32_MAX_def DigestUpdate_def load_def
        Digest_Update_def DigestFinal_def Digest_Final_def Digest_new_def kNodeSize_def)
  ultimately show ?thesis by blast
qed

text \<open>
  C5, as the claim states it, fails: the root of the empty blob is the hash of the 12 bytes
  of locality and length tag alone, with no padding. With a hash that counts its input the
  root is 12, and the hash of the 12 bytes followed by \<open>NODE_SIZE\<close> zero bytes is 8204.
\<close>

theorem empty_root_counterexample:
  "Create toy_hash 0 nullptr 0 nullptr 0 (Some Digest_new) [] =
     (NO_ERROR, [], Some \<lparr>ctx = replicate 12 0, bytes_m = 12\<rparr>) \<and>
   toy_hash (le_bytes 8 (0::uint64_t) @ le_bytes 4 (0::uint32_t) @ replicate (unat kNodeSize) 0) = 8204 \<and>
   (12 :: 256 word) \<noteq> 8204"
  by (simp add: empty_Create toy_hash_def le_bytes_zero kNodeSize_def sum_list_replicate)

text \<open>
  C5, amended. When \<open>data_len = 0\<close>, \<^verbatim>\<open>CreateFinal\<close> emits the root
  \<open>Hash(locality 0 (8 bytes) || length tag 0 (4 bytes))\<close>, twelve zero bytes and no
  padding, and \<^verbatim>\<open>VerifyRoot\<close> recomputes the same value for a zero-length blob, so
  \<^verbatim>\<open>Verify\<close> accepts that root for every data pointer, offset and length.
\<close>

theorem empty_root:
  "le_bytes 8 (0::uint64_t) @ le_bytes 4 (0::uint32_t) = replicate 12 0 \<and>
   CreateFinal H (fst (snd (CreateInit heap Tree_new 0 tree_len))) tree (Some d) mem =
     (NO_ERROR, Tree False None 0 0 0 \<lparr>ctx = replicate 12 0, bytes_m = H (replicate 12 0)\<rparr>, mem,
      Some \<lparr>ctx = replicate 12 0, bytes_m = H (replicate 12 0)\<rparr>) \<and>
   Create H heap data 0 tree tree_len (Some d) mem =
     (NO_ERROR, mem, Some \<lparr>ctx = replicate 12 0, bytes_m = H (replicate 12 0)\<rparr>) \<and>
   VerifyRoot H data 0 0 \<lparr>ctx = replicate 12 0, bytes_m = H (replicate 12 0)\<rparr> mem = NO_ERROR \<and>
   Verify H data 0 tree tree_len offset len \<lparr>ctx = replicate 12 0, bytes_m = H (replicate 12 0)\<rparr> mem =
     NO_ERROR"
proof -
  have a: "le_bytes 8 (0::uint64_t) @ le_bytes 4 (0::uint32_t) = replicate 12 0"
    by (simp add: le_bytes_zero replicate_add [symmetric])
  have b: "CreateFinal H (fst (snd (CreateInit heap Tree_new 0 tree_len))) tree (Some d) mem =
     (NO_ERROR, Tree False None 0 0 0 \<lparr>ctx = replicate 12 0, bytes_m = H (replicate 12 0)\<rparr>, mem,
      Some \<lparr>ctx = replicate 12 0, bytes_m = H (replicate 12 0)\<rparr>)"
    apply (simp add: CreateInit_small Tree_new_def CreateFinal_def)
    apply (subst CreateFinalInternal.simps)
    apply (simp add: DigestInit_ok UINT32_MAX_def DigestFinal_def Digest_Final_def set_digest_def
        CreateUpdate_zero set_initialized_def Digest_new_def le_bytes_zero kNodeSize_def
        replicate_add [symmetric])
    done
  have c: "VerifyRoot H data 0 0 \<lparr>ctx = replicate 12 0, bytes_m = H (replicate 12 0)\<rparr> mem = NO_ERROR"
    by (simp add: kNodeSize_def VerifyRoot_def DigestInit_ok UINT32_MAX_def DigestUpdate_def load_def
      Digest_Update_def DigestFinal_def Digest_Final_def Digest_new_def le_bytes_zero
      replicate_add [symmetric])
  show ?thesis
    using a b c empty_Create [of H heap data tree tree_len d mem]
      empty_VerifyRoot [of "\<lparr>ctx = replicate 12 0, bytes_m = H (replicate 12 0)\<rparr>" H data tree tree_len offset len mem]
    by simp
qed

section \<open>Claims about errors\<close>

text \<open>
  C6, as the claim states it, fails twice. For \<open>data_len \<le> NODE_SIZE\<close> the verifier makes
  no range check: the range \<open>[5, 12)\<close> of an empty blob is compared with the root. And the
  comparison is not overflow-safe: when \<open>offset + length\<close> wraps around, the assertion of
  \<^verbatim>\<open>VerifyLevel\<close> fails instead.
\<close>

theorem Verify_range_check_counterexample:
  "Verify toy_hash (Data [] 0) 0 nullptr 0 5 7 Digest_new [] = ERR_IO_DATA_INTEGRITY \<and>
   (5::size_t) + 7 > 0 \<and>
   Verify toy_hash (Data (replicate 8193 0) 0) 8193 (TreeMem 0) 8192 18446744073709551615 2
     Digest_new (replicate 8192 0) = ASSERT_FAILED"
proof -
  have a: "Verify toy_hash (Data [] 0) 0 nullptr 0 5 7 Digest_new [] = ERR_IO_DATA_INTEGRITY"
    unfolding Verify_def
    apply (subst Verify_loop.simps)
    apply (simp add: kNodeSize_def VerifyRoot_def DigestInit_ok UINT32_MAX_def DigestUpdate_def
        load_def Digest_Update_def DigestFinal_def Digest_Final_def Digest_new_def le_bytes_zero
        toy_hash_def sum_list_replicate)
    done
  have b: "Verify toy_hash (Data (replicate 8193 0) 0) 8193 (TreeMem 0) 8192 18446744073709551615 2
     Digest_new (replicate 8192 0) = ASSERT_FAILED"
    unfolding Verify_def
    apply (subst Verify_loop.simps)
    apply (simp add: kNodeSize_def VerifyLevel_def)
    done
  show ?thesis using a b by simp
qed

text \<open>
  C6, amended. For every \<open>data_len > NODE_SIZE\<close> with the data and the tree present,
  \<^verbatim>\<open>Verify\<close> returns \<open>ERR_OUT_OF_RANGE\<close> whenever \<open>offset + length > data_len\<close> and the sum
  does not wrap around the 64-bit range; when it wraps, the assertion
  \<^verbatim>\<open>MX_DEBUG_ASSERT(offset + length >= offset)\<close> fails.
\<close>

theorem Verify_range_check:
  "kNodeSize < data_len \<and> data \<noteq> nullptr \<and> tree \<noteq> nullptr \<and>
   unat data_len < unat offset + unat len \<longrightarrow>
     Verify H data data_len tree tree_len offset len root mem =
       (if unat offset + unat len < 2 ^ 64 then ERR_OUT_OF_RANGE else ASSERT_FAILED)"
  using Verify_out_of_range by blast

theorem Verify_range_check_witness:
  "kNodeSize < (8193::size_t) \<and> Data (replicate 8193 0) 0 \<noteq> nullptr \<and> TreeMem 0 \<noteq> nullptr \<and>
   unat (8193::size_t) < unat (8192::size_t) + unat (2::size_t) \<and>
   Verify toy_hash (Data (replicate 8193 0) 0) 8193 (TreeMem 0) 8192 8192 2 Digest_new
     (replicate 8192 0) = ERR_OUT_OF_RANGE"
  using Verify_range_check [of 8193 "Data (replicate 8193 0) 0" "TreeMem 0" 8192 2 toy_hash 8192
      Digest_new "replicate 8192 0"]
  by (simp add: kNodeSize_def)

text \<open>
  C7, as the claim states it, fails: \<^verbatim>\<open>CreateInit\<close> sets \<^verbatim>\<open>initialized_\<close> before it can
  fail, so after \<open>ERR_BUFFER_TOO_SMALL\<close> or \<open>ERR_NO_MEMORY\<close> an update of one byte is
  accepted and returns \<open>NO_ERROR\<close>.
\<close>

theorem CreateInit_error_counterexample:
  "fst (CreateInit (Suc 0) Tree_new 8193 0) = ERR_BUFFER_TOO_SMALL \<and>
   fst (CreateUpdate toy_hash (fst (snd (CreateInit (Suc 0) Tree_new 8193 0))) (Data [7] 0) 1
          (TreeMem 0) []) = NO_ERROR \<and>
   fst (CreateInit 0 Tree_new 8193 8192) = ERR_NO_MEMORY \<and>
   fst (CreateUpdate toy_hash (fst (snd (CreateInit 0 Tree_new 8193 8192))) (Data [7] 0) 1
          (TreeMem 0) []) = NO_ERROR"
  by (simp add: CreateInit_too_small_8193 CreateInit_no_memory_8193 CreateUpdate_one_byte_8193)

text \<open>
  C7, amended. If \<^verbatim>\<open>CreateInit\<close> on a new builder returns an error, level 0 is left
  initialised, with offset 0 and length \<open>data_len > NODE_SIZE\<close>. A subsequent
  \<^verbatim>\<open>CreateFinal\<close> returns \<open>ERR_BAD_STATE\<close>, because the offset of level 0 is not its
  length, and changes nothing; a subsequent \<^verbatim>\<open>CreateUpdate\<close> is not refused for the
  state: with no bytes it returns \<open>NO_ERROR\<close>.
\<close>

theorem CreateInit_error_leaves_level0_open:
  assumes "CreateInit heap Tree_new data_len tree_len = (rc, t, heap')" "rc \<noteq> NO_ERROR"
  shows "initialized_m t \<and> offset_m t = 0 \<and> length_m t = data_len \<and> kNodeSize < data_len \<and>
         CreateFinal H t tree root mem = (ERR_BAD_STATE, t, mem, root) \<and>
         CreateUpdate H t data 0 tree mem = (NO_ERROR, t, mem)"
proof -
  note st = CreateInit_error_state [OF assms]
  have ne: "offset_m t \<noteq> length_m t"
    using st by auto
  have "CreateFinal H t tree root mem = (ERR_BAD_STATE, t, mem, root)"
    unfolding CreateFinal_def
    apply (subst CreateFinalInternal.simps)
    using st ne apply simp
    done
  then show ?thesis
    using st by (simp add: CreateUpdate_zero)
qed

theorem CreateInit_error_leaves_level0_open_witness:
  "CreateInit (Suc 0) Tree_new 8193 0 =
     (ERR_BUFFER_TOO_SMALL, Tree True (Some (Tree False None 1 0 0 Digest_new)) 0 0 8193 Digest_new, 0) \<and>
   ERR_BUFFER_TOO_SMALL \<noteq> NO_ERROR \<and>
   CreateFinal toy_hash (Tree True (Some (Tree False None 1 0 0 Digest_new)) 0 0 8193 Digest_new)
     (TreeMem 0) (Some Digest_new) [] =
     (ERR_BAD_STATE, Tree True (Some (Tree False None 1 0 0 Digest_new)) 0 0 8193 Digest_new, [],
      Some Digest_new) \<and>
   CreateUpdate toy_hash (Tree True (Some (Tree False None 1 0 0 Digest_new)) 0 0 8193 Digest_new)
     nullptr 0 (TreeMem 0) [] =
     (NO_ERROR, Tree True (Some (Tree False None 1 0 0 Digest_new)) 0 0 8193 Digest_new, [])"
  using CreateInit_error_leaves_level0_open [OF CreateInit_too_small_8193, of toy_hash "TreeMem 0"
      "Some Digest_new" "[]" nullptr]
  by (simp add: CreateInit_too_small_8193)

section \<open>Streaming\<close>

text \<open>
  Claim C2 (streaming equivalence).  For every blob \<open>bs\<close> (of a length that fits a
  \<^verbatim>\<open>size_t\<close>) and every way \<open>cs\<close> of cutting it into consecutive chunks, empty chunks and
  single bytes included, \<^verbatim>\<open>CreateInit\<close> followed by one \<^verbatim>\<open>CreateUpdate\<close> per chunk and by
  \<^verbatim>\<open>CreateFinal\<close> returns what the one-shot \<^verbatim>\<open>Tree::Create\<close> returns on the whole blob: the
  same status, the same bytes in the tree buffer and the same root digest, with the same tree
  pointer, tree length, allocation budget and hash function on both sides.  The equality
  covers the error returns as well, so the outcome depends on the chunking in no way.
\<close>

theorem streaming_equivalence:
  assumes "concat cs = bs" "length bs < 2 ^ 64"
  shows "CreateChunked H heap cs (of_nat (length bs)) tree tree_len digest mem =
         Create H heap (Data bs 0) (of_nat (length bs)) tree tree_len digest mem"
  using assms by (rule CreateChunked_Create)

theorem streaming_equivalence_witness:
  "concat [[1], [2, 3 :: byte]] = [1, 2, 3] \<and> length [1, 2, 3 :: byte] < 2 ^ 64 \<and>
   CreateChunked toy_hash 0 [[1], [2, 3]] 3 nullptr 0 (Some Digest_new) [] =
     Create toy_hash 0 (Data [1, 2, 3] 0) 3 nullptr 0 (Some Digest_new) [] \<and>
   Create toy_hash 0 (Data [1, 2, 3] 0) 3 nullptr 0 (Some Digest_new) [] =
     (NO_ERROR, [],
      Some \<lparr>ctx = node_msg 0 3 [1, 2, 3], bytes_m = toy_hash (node_msg 0 3 [1, 2, 3])\<rparr>)"
  using streaming_equivalence [of "[[1], [2, 3]]" "[1, 2, 3]" toy_hash 0 nullptr 0 "Some Digest_new" "[]"]
    short_Create [of 3 "[1, 2, 3]" toy_hash 0 nullptr 0 Digest_new "[]"]
  by (simp add: kNodeSize_def)

section \<open>Errors of CreateFinal\<close>

text \<open>
  C9, as the claim states it, fails on a builder whose \<^verbatim>\<open>CreateInit\<close> failed.  After
  \<^verbatim>\<open>CreateInit\<close> for 8193 bytes with a tree buffer of length 0 has returned
  \<open>ERR_BUFFER_TOO_SMALL\<close>, level 0 is initialised and owns a level 1 that is not.  Two
  updates, of 8192 bytes and of one byte, both return \<open>ERR_BAD_STATE\<close> from level 1 and yet
  bring the offset of level 0 to its length.  \<^verbatim>\<open>CreateFinal\<close> then passes the checks of
  level 0, clears \<^verbatim>\<open>initialized_\<close> of level 0, and returns \<open>ERR_BAD_STATE\<close> from level 1:
  the builder is initialised before the call and not after it.
\<close>

theorem CreateFinal_error_atomicity_counterexample:
  "fst (failed_init_run toy_hash) =
     [ERR_BUFFER_TOO_SMALL, ERR_BAD_STATE, ERR_BAD_STATE, ERR_BAD_STATE] \<and>
   initialized_m (fst (snd (failed_init_run toy_hash))) \<and>
   \<not> initialized_m (snd (snd (failed_init_run toy_hash)))"
  by (rule failed_init_run_result)

text \<open>
  C9, amended.  On a builder that a successful \<^verbatim>\<open>CreateInit\<close> has set up and to which any
  calls of \<^verbatim>\<open>CreateUpdate\<close> have been made, whatever their arguments and results, a
  \<^verbatim>\<open>CreateFinal\<close> that returns \<open>ERR_BAD_STATE\<close> or \<open>ERR_INVALID_ARGS\<close> returns the builder,
  the tree buffer and the root as they were.  On any builder, \<^verbatim>\<open>CreateFinal\<close> returns
  \<open>ERR_BAD_STATE\<close> with nothing changed when the builder is not initialised or its level 0
  has not received all of its data, and \<open>ERR_INVALID_ARGS\<close> with nothing changed when, past
  those checks, the root is null or the tree is null and the length exceeds the node size.
  A caller who makes such a refused call after the chunks \<open>cs1\<close>, then feeds the remaining
  chunks \<open>cs2\<close> and calls \<^verbatim>\<open>CreateFinal\<close> with its proper arguments, obtains what the one-shot
  \<^verbatim>\<open>Tree::Create\<close> returns on the whole blob.
\<close>

theorem CreateFinal_error_atomicity:
  "(CreateInit heap0 Tree_new data_len0 tree_len0 = (NO_ERROR, t0, heap1) \<and>
    CreateUpdate_calls H t0 calls mem0 = (t, mem3) \<and>
    CreateFinal H t tree3 root3 mem4 = (rc, t', mem', root') \<and>
    (rc = ERR_BAD_STATE \<or> rc = ERR_INVALID_ARGS) \<longrightarrow>
      t' = t \<and> mem' = mem4 \<and> root' = root3) \<and>
   (\<not> initialized_m t1 \<or> (level_m t1 = 0 \<and> offset_m t1 \<noteq> length_m t1) \<longrightarrow>
      CreateFinal H t1 tree1 root1 mem1 = (ERR_BAD_STATE, t1, mem1, root1)) \<and>
   (initialized_m t2 \<and> \<not> (level_m t2 = 0 \<and> offset_m t2 \<noteq> length_m t2) \<and>
    (root2 = None \<or> (tree2 = nullptr \<and> kNodeSize < length_m t2)) \<longrightarrow>
      CreateFinal H t2 tree2 root2 mem2 = (ERR_INVALID_ARGS, t2, mem2, root2)) \<and>
   (concat (cs1 @ cs2) = bs \<and> length bs < 2 ^ 64 \<and>
    (concat cs2 \<noteq> [] \<or> root0 = None \<or> (tree0 = nullptr \<and> kNodeSize < of_nat (length bs))) \<longrightarrow>
      CreateRetried H heap cs1 tree0 root0 cs2 (of_nat (length bs)) tree tree_len digest mem =
      Create H heap (Data bs 0) (of_nat (length bs)) tree tree_len digest mem)"
proof -
  have c1: "CreateInit heap0 Tree_new data_len0 tree_len0 = (NO_ERROR, t0, heap1) \<and>
    CreateUpdate_calls H t0 calls mem0 = (t, mem3) \<and>
    CreateFinal H t tree3 root3 mem4 = (rc, t', mem', root') \<and>
    (rc = ERR_BAD_STATE \<or> rc = ERR_INVALID_ARGS) \<longrightarrow>
      t' = t \<and> mem' = mem4 \<and> root' = root3"
  proof
    assume a: "CreateInit heap0 Tree_new data_len0 tree_len0 = (NO_ERROR, t0, heap1) \<and>
      CreateUpdate_calls H t0 calls mem0 = (t, mem3) \<and>
      CreateFinal H t tree3 root3 mem4 = (rc, t', mem', root') \<and>
      (rc = ERR_BAD_STATE \<or> rc = ERR_INVALID_ARGS)"
    have sk: "skel t = skel t0"
      using a CreateUpdate_calls_skel by blast
    have lv: "level_m u = snd (hd (skel u))" for u
      by (subst skel_unfold) simp
    have "level_m t0 = 0 \<and> list_all (\<lambda>(i, l). i \<and> l \<noteq> 0) (tl (skel t0))"
      using a CreateInit_upper_levels [of heap0 data_len0 tree_len0 t0 heap1] by simp
    then have "level_m t = 0" "list_all (\<lambda>(i, l). i \<and> l \<noteq> 0) (tl (skel t))"
      unfolding lv [of t] lv [of t0] sk by simp_all
    then show "t' = t \<and> mem' = mem4 \<and> root' = root3"
      using a CreateFinal_status_atomic [of t H tree3 root3 mem4 rc t' mem' root'] by blast
  qed
  have c2: "\<not> initialized_m t1 \<or> (level_m t1 = 0 \<and> offset_m t1 \<noteq> length_m t1) \<longrightarrow>
      CreateFinal H t1 tree1 root1 mem1 = (ERR_BAD_STATE, t1, mem1, root1)"
    using CreateFinal_bad_state by blast
  have c3: "initialized_m t2 \<and> \<not> (level_m t2 = 0 \<and> offset_m t2 \<noteq> length_m t2) \<and>
    (root2 = None \<or> (tree2 = nullptr \<and> kNodeSize < length_m t2)) \<longrightarrow>
      CreateFinal H t2 tree2 root2 mem2 = (ERR_INVALID_ARGS, t2, mem2, root2)"
  proof
    assume a: "initialized_m t2 \<and> \<not> (level_m t2 = 0 \<and> offset_m t2 \<noteq> length_m t2) \<and>
      (root2 = None \<or> (tree2 = nullptr \<and> kNodeSize < length_m t2))"
    show "CreateFinal H t2 tree2 root2 mem2 = (ERR_INVALID_ARGS, t2, mem2, root2)"
      by (rule CreateFinal_invalid_args) (use a in simp_all)
  qed
  have c4: "concat (cs1 @ cs2) = bs \<and> length bs < 2 ^ 64 \<and>
    (concat cs2 \<noteq> [] \<or> root0 = None \<or> (tree0 = nullptr \<and> kNodeSize < of_nat (length bs))) \<longrightarrow>
      CreateRetried H heap cs1 tree0 root0 cs2 (of_nat (length bs)) tree tree_len digest mem =
      Create H heap (Data bs 0) (of_nat (length bs)) tree tree_len digest mem"
  proof
    assume a: "concat (cs1 @ cs2) = bs \<and> length bs < 2 ^ 64 \<and>
      (concat cs2 \<noteq> [] \<or> root0 = None \<or> (tree0 = nullptr \<and> kNodeSize < of_nat (length bs)))"
    have cc: "concat cs1 @ concat cs2 = bs" "concat (cs1 @ cs2) = bs"
      using a by simp_all
    have "CreateRetried H heap cs1 tree0 root0 cs2 (of_nat (length bs)) tree tree_len digest mem =
        CreateChunked H heap (cs1 @ cs2) (of_nat (length bs)) tree tree_len digest mem"
      by (rule CreateRetried_Chunked [OF cc(1)]) (use a in simp_all)
    also have "\<dots> = Create H heap (Data bs 0) (of_nat (length bs)) tree tree_len digest mem"
      by (rule CreateChunked_Create [OF cc(2)]) (use a in simp)
    finally show "CreateRetried H heap cs1 tree0 root0 cs2 (of_nat (length bs)) tree tree_len digest mem =
        Create H heap (Data bs 0) (of_nat (length bs)) tree tree_len digest mem" .
  qed
  show ?thesis
    by (intro conjI) (fact c1 c2 c3 c4)+
qed

theorem CreateFinal_error_atomicity_witness:
  "CreateInit 0 Tree_new 3 0 = (NO_ERROR, Tree True None 0 0 3 Digest_new, 0) \<and>
   CreateUpdate_calls toy_hash (Tree True None 0 0 3 Digest_new) [(Data [1] 0, 1, nullptr)] [] =
     (Tree True None 0 1 3
        \<lparr>ctx = le_bytes 8 (0 :: uint64_t) @ le_bytes 4 (3 :: uint32_t) @ [1], bytes_m = 0\<rparr>, []) \<and>
   CreateFinal toy_hash
     (Tree True None 0 1 3
        \<lparr>ctx = le_bytes 8 (0 :: uint64_t) @ le_bytes 4 (3 :: uint32_t) @ [1], bytes_m = 0\<rparr>)
     nullptr (Some Digest_new) [] =
     (ERR_BAD_STATE,
      Tree True None 0 1 3
        \<lparr>ctx = le_bytes 8 (0 :: uint64_t) @ le_bytes 4 (3 :: uint32_t) @ [1], bytes_m = 0\<rparr>,
      [], Some Digest_new) \<and>
   \<not> initialized_m Tree_new \<and>
   CreateFinal toy_hash Tree_new nullptr (Some Digest_new) [] =
     (ERR_BAD_STATE, Tree_new, [], Some Digest_new) \<and>
   initialized_m (Tree True None 0 0 0 Digest_new) \<and>
   CreateFinal toy_hash (Tree True None 0 0 0 Digest_new) nullptr None [] =
     (ERR_INVALID_ARGS, Tree True None 0 0 0 Digest_new, [], None) \<and>
   concat ([[1]] @ [[2, 3 :: byte]]) = [1, 2, 3] \<and> length [1, 2, 3 :: byte] < 2 ^ 64 \<and>
   concat [[2, 3 :: byte]] \<noteq> [] \<and>
   CreateRetried toy_hash 0 [[1]] nullptr (Some Digest_new) [[2, 3]] 3 nullptr 0 (Some Digest_new) [] =
     (NO_ERROR, [],
      Some \<lparr>ctx = node_msg 0 3 [1, 2, 3], bytes_m = toy_hash (node_msg 0 3 [1, 2, 3])\<rparr>)"
proof -
  define T1 where "T1 = Tree True None 0 1 3
        \<lparr>ctx = le_bytes 8 (0 :: uint64_t) @ le_bytes 4 (3 :: uint32_t) @ [1], bytes_m = 0\<rparr>"
  have ci: "CreateInit 0 Tree_new 3 0 = (NO_ERROR, Tree True None 0 0 3 Digest_new, 0)"
    by (simp add: CreateInit_small Tree_new_def kNodeSize_def)
  have cu: "CreateUpdate_calls toy_hash (Tree True None 0 0 3 Digest_new) [(Data [1] 0, 1, nullptr)] [] =
      (T1, [])"
    by (simp add: CreateUpdate_one_byte_3 T1_def)
  have cf: "CreateFinal toy_hash T1 nullptr (Some Digest_new) [] = (ERR_BAD_STATE, T1, [], Some Digest_new)"
    by (rule CreateFinal_bad_state) (simp add: T1_def)
  note th = CreateFinal_error_atomicity [where ?heap0.0 = 0 and ?data_len0.0 = 3 and ?tree_len0.0 = 0
      and ?t0.0 = "Tree True None 0 0 3 Digest_new" and ?heap1.0 = 0 and H = toy_hash
      and calls = "[(Data [1] 0, 1, nullptr)]" and ?mem0.0 = "[]" and t = T1 and ?mem3.0 = "[]"
      and ?tree3.0 = nullptr and ?root3.0 = "Some Digest_new" and ?mem4.0 = "[]"
      and rc = ERR_BAD_STATE and t' = T1 and mem' = "[]" and root' = "Some Digest_new"
      and ?t1.0 = Tree_new and ?tree1.0 = nullptr
      and ?root1.0 = "Some Digest_new" and ?mem1.0 = "[]"
      and ?t2.0 = "Tree True None 0 0 0 Digest_new" and ?root2.0 = None and ?tree2.0 = nullptr
      and ?mem2.0 = "[]" and ?cs1.0 = "[[1]]" and ?cs2.0 = "[[2, 3]]" and bs = "[1, 2, 3]"
      and ?root0.0 = "Some Digest_new" and ?tree0.0 = nullptr and heap = 0 and tree = nullptr
      and tree_len = 0 and digest = "Some Digest_new" and mem = "[]"]
  show ?thesis
    using th ci cu cf short_Create [of 3 "[1, 2, 3]" toy_hash 0 nullptr 0 Digest_new "[]"]
    by (simp add: Tree_new_def kNodeSize_def T1_def)
qed

section \<open>Bytes outside the verified nodes\<close>

text \<open>
  C8, as the claim states it, fails for the empty range: \<^verbatim>\<open>Tree::Verify\<close> ends with
  \<^verbatim>\<open>VerifyRoot\<close>, which hashes the whole top-level node whatever the range is.  For a blob of
  exactly one node and the range of offset 0 and length 0, whose node-aligned extension is
  empty, the verification of the created blob succeeds, and after changing the first data byte
  it returns \<open>ERR_IO_DATA_INTEGRITY\<close>.
\<close>

theorem Verify_outside_tolerance_counterexample:
  "Create toy_hash 0 (Data (replicate 8192 0) 0) 8192 nullptr 0 (Some Digest_new) [] =
     (NO_ERROR, [], Some \<lparr>ctx = node_msg 0 8192 (replicate 8192 0), bytes_m = 8236\<rparr>) \<and>
   Verify toy_hash (Data (replicate 8192 0) 0) 8192 nullptr 0 0 0
     \<lparr>ctx = node_msg 0 8192 (replicate 8192 0), bytes_m = 8236\<rparr> [] = NO_ERROR \<and>
   Verify toy_hash (Data (1 # replicate 8191 0) 0) 8192 nullptr 0 0 0
     \<lparr>ctx = node_msg 0 8192 (replicate 8192 0), bytes_m = 8236\<rparr> [] = ERR_IO_DATA_INTEGRITY"
proof -
  have k: "(8192 :: size_t) = kNodeSize"
    by (simp add: kNodeSize_def)
  show ?thesis
    unfolding k
    by (simp add: full_Create full_Verify toy_hash_zero_node toy_hash_flipped_node)
qed


text \<open>
  C8, amended.  Two data buffers of equal length and two tree buffers of equal length that
  agree on every position of \<open>touched\<close> get the same status from \<^verbatim>\<open>Tree::Verify\<close>, for every
  range, root digest, tree length and hash function.  The positions of \<open>touched\<close> are, at
  each level below the top, the nodes of the aligned range of that level and the digests they
  are compared with, and the top-level node, which is read for every range.
\<close>

theorem Verify_outside_tolerance:
  assumes "length bs1 = length bs2" "length mem1 = length mem2"
    and "\<forall>i\<in>fst (touched data_len data_len offset len 0). i < length bs1 \<longrightarrow> bs1 ! i = bs2 ! i"
    and "\<forall>j\<in>snd (touched data_len data_len offset len 0). j < length mem1 \<longrightarrow> mem1 ! j = mem2 ! j"
  shows "Verify H (Data bs1 0) data_len (TreeMem 0) tree_len offset len root mem1 =
         Verify H (Data bs2 0) data_len (TreeMem 0) tree_len offset len root mem2"
  unfolding Verify_def
proof (rule Verify_loop_cong)
  show "(Data bs1 0 = nullptr) = (Data bs2 0 = nullptr)"
    by simp
  show "\<forall>i\<in>fst (touched data_len data_len offset len 0).
      peek mem1 (Data bs1 0) i = peek mem2 (Data bs2 0) i"
    using assms(1,3) by (simp add: peek_def)
  show "\<forall>j\<in>snd (touched data_len data_len offset len 0).
      peek mem1 (TreeMem 0) j = peek mem2 (TreeMem 0) j"
    using assms(2,4) by (simp add: peek_def)
qed

theorem Verify_outside_tolerance_witness:
  "length (replicate 16384 (0 :: byte)) = length (replicate 16383 (0 :: byte) @ [1]) \<and>
   length (replicate 8192 (0 :: byte)) = length (replicate 8191 (0 :: byte) @ [1]) \<and>
   fst (touched 16384 16384 0 1 0) = {0 ..< 8192} \<and>
   snd (touched 16384 16384 0 1 0) = {0 ..< 64} \<and>
   Verify toy_hash (Data (replicate 16384 0) 0) 16384 (TreeMem 0) 8192 0 1 Digest_new (replicate 8192 0) =
   Verify toy_hash (Data (replicate 16383 0 @ [1]) 0) 16384 (TreeMem 0) 8192 0 1 Digest_new
     (replicate 8191 0 @ [1])"
  using Verify_outside_tolerance [of "replicate 16384 0" "replicate 16383 0 @ [1]"
      "replicate 8192 0" "replicate 8191 0 @ [1]" 16384 0 1 toy_hash 8192 Digest_new]
  by (simp add: touched_16384 nth_append)

end
